theory Spec2Isabelle
  imports Complex_Main
begin

section \<open>Violation status state machine (src/lib/status-transitions.ts)\<close>

text \<open>
  The business lifecycle of a violation record. \<^verbatim>\<open>ViolationStatus\<close> is the union type of
  \<^verbatim>\<open>@/lib/types\<close>; \<^verbatim>\<open>VALID_TRANSITIONS\<close> is the object literal of the source, read as a
  lookup that may miss (the source guards the lookup with \<^verbatim>\<open>?.\<close> and \<^verbatim>\<open>??\<close>).
\<close>

datatype ViolationStatus =
    NEW | PARSING | PARSED | ASSIGNED | IN_PROGRESS | AWAITING_PHOTOS
  | PHOTOS_UPLOADED | READY_FOR_SUBMISSION | SUBMITTED | APPROVED | REJECTED
  | ADDITIONAL_INFO_REQUESTED | CLOSED

fun VALID_TRANSITIONS :: "ViolationStatus \<Rightarrow> ViolationStatus list option" where
  "VALID_TRANSITIONS NEW = Some [PARSING, ASSIGNED, CLOSED]"
| "VALID_TRANSITIONS PARSING = Some [PARSED, NEW]"
| "VALID_TRANSITIONS PARSED = Some [ASSIGNED, CLOSED]"
| "VALID_TRANSITIONS ASSIGNED = Some [IN_PROGRESS, CLOSED]"
| "VALID_TRANSITIONS IN_PROGRESS = Some [AWAITING_PHOTOS, CLOSED]"
| "VALID_TRANSITIONS AWAITING_PHOTOS = Some [PHOTOS_UPLOADED, IN_PROGRESS]"
| "VALID_TRANSITIONS PHOTOS_UPLOADED = Some [READY_FOR_SUBMISSION, AWAITING_PHOTOS]"
| "VALID_TRANSITIONS READY_FOR_SUBMISSION = Some [SUBMITTED, AWAITING_PHOTOS]"
| "VALID_TRANSITIONS SUBMITTED = Some [APPROVED, REJECTED, ADDITIONAL_INFO_REQUESTED]"
| "VALID_TRANSITIONS APPROVED = Some [CLOSED]"
| "VALID_TRANSITIONS REJECTED = Some [IN_PROGRESS]"
| "VALID_TRANSITIONS ADDITIONAL_INFO_REQUESTED = Some [AWAITING_PHOTOS, IN_PROGRESS]"
| "VALID_TRANSITIONS CLOSED = Some []"

text \<open>\<^verbatim>\<open>Array.prototype.includes\<close> on a list of enum values.\<close>

fun array_includes :: "'a list \<Rightarrow> 'a \<Rightarrow> bool" where
  "array_includes [] x = False"
| "array_includes (y # ys) x = (if y = x then True else array_includes ys x)"

definition canTransition :: "ViolationStatus \<Rightarrow> ViolationStatus \<Rightarrow> bool" where
  "canTransition from to =
     (case VALID_TRANSITIONS from of
        None \<Rightarrow> False
      | Some allowed \<Rightarrow> array_includes allowed to)"

definition getNextStatuses :: "ViolationStatus \<Rightarrow> ViolationStatus list" where
  "getNextStatuses current =
     (case VALID_TRANSITIONS current of None \<Rightarrow> [] | Some allowed \<Rightarrow> allowed)"

section \<open>JavaScript primitives used by the pipeline\<close>

text \<open>
  Strings are lists of code units. The model covers the code units U+0000 to U+00FF
  (one \<open>char\<close> each), which holds the violation codes of the notices, the section sign
  U+00A7 included. Inside this range \<^verbatim>\<open>\s\<close>, \<^verbatim>\<open>trim\<close> and the leading white space skipped by
  \<^verbatim>\<open>parseInt\<close> and \<^verbatim>\<open>parseFloat\<close> are TAB, LF, VT, FF, CR, SPACE and NBSP, and
  \<^verbatim>\<open>toLowerCase\<close> adds 0x20 to A..Z and to U+00C0..U+00DE except U+00D7 (that is, it sets
  bit 5 of the code unit) and leaves every other code unit alone.
\<close>

abbreviation section_sign :: char where
  "section_sign \<equiv> CHR 0xA7"

definition isWhiteSpace :: "char \<Rightarrow> bool" where
  "isWhiteSpace c =
     (c = CHR 0x09 \<or> c = CHR 0x0A \<or> c = CHR 0x0B \<or> c = CHR 0x0C \<or> c = CHR 0x0D
      \<or> c = CHR 0x20 \<or> c = CHR 0xA0)"

definition isUpperCase :: "char \<Rightarrow> bool" where
  "isUpperCase c =
     (let n = (of_char c :: nat) in
      (65 \<le> n \<and> n \<le> 90) \<or> (192 \<le> n \<and> n \<le> 222 \<and> n \<noteq> 215))"

fun lowerChar :: "char \<Rightarrow> char" where
  "lowerChar (Char b0 b1 b2 b3 b4 b5 b6 b7) =
     (if isUpperCase (Char b0 b1 b2 b3 b4 b5 b6 b7) then Char b0 b1 b2 b3 b4 True b6 b7
      else Char b0 b1 b2 b3 b4 b5 b6 b7)"

definition toLowerCase :: "string \<Rightarrow> string" where
  "toLowerCase s = map lowerChar s"

definition trim :: "string \<Rightarrow> string" where
  "trim s = rev (dropWhile isWhiteSpace (rev (dropWhile isWhiteSpace s)))"

text \<open>\<^verbatim>\<open>s.replace(/\s+/g, ' ')\<close>: every maximal run of white space becomes one space.\<close>

function replaceWhiteSpaceRuns :: "string \<Rightarrow> string" where
  "replaceWhiteSpaceRuns [] = []"
| "replaceWhiteSpaceRuns (c # cs) =
     (if isWhiteSpace c then CHR '' '' # replaceWhiteSpaceRuns (dropWhile isWhiteSpace cs)
      else c # replaceWhiteSpaceRuns cs)"
  by pat_completeness auto
termination
  by (relation "measure length") (auto simp: length_dropWhile_le less_Suc_eq_le)

text \<open>\<^verbatim>\<open>s.split(sep)\<close> for a one-character separator: never the empty list.\<close>

fun split :: "char \<Rightarrow> string \<Rightarrow> string list" where
  "split sep [] = [[]]"
| "split sep (c # cs) =
     (case split sep cs of
        [] \<Rightarrow> (if c = sep then [[], []] else [[c]])
      | p # ps \<Rightarrow> (if c = sep then [] # p # ps else (c # p) # ps))"

definition padStart :: "nat \<Rightarrow> char \<Rightarrow> string \<Rightarrow> string" where
  "padStart n fill s = replicate (n - length s) fill @ s"

fun join :: "string \<Rightarrow> string list \<Rightarrow> string" where
  "join sep [] = []"
| "join sep [x] = x"
| "join sep (x # y # ys) = x @ sep @ join sep (y # ys)"

text \<open>Truthiness of strings and of nullable strings: \<^verbatim>\<open>""\<close>, \<^verbatim>\<open>null\<close> and \<^verbatim>\<open>undefined\<close> are falsy.\<close>

definition truthy :: "string option \<Rightarrow> bool" where
  "truthy v = (case v of None \<Rightarrow> False | Some s \<Rightarrow> s \<noteq> [])"

text \<open>Decimal digits, and the digits of \<^verbatim>\<open>parseInt\<close> in radix 10 and 16.\<close>

definition isDigit :: "char \<Rightarrow> bool" where
  "isDigit c = (let n = (of_char c :: nat) in 48 \<le> n \<and> n \<le> 57)"

definition digitValue :: "char \<Rightarrow> nat option" where
  "digitValue c =
     (let n = (of_char c :: nat) in
      if 48 \<le> n \<and> n \<le> 57 then Some (n - 48)
      else if 97 \<le> n \<and> n \<le> 122 then Some (n - 87)
      else if 65 \<le> n \<and> n \<le> 90 then Some (n - 55)
      else None)"

text \<open>
  The longest prefix of digits below the radix, as a number; \<open>None\<close> when the prefix is
  empty. The accumulator is the value read so far.
\<close>

fun parseDigits :: "nat \<Rightarrow> string \<Rightarrow> nat option \<Rightarrow> nat option" where
  "parseDigits radix [] acc = acc"
| "parseDigits radix (c # cs) acc =
     (case digitValue c of
        None \<Rightarrow> acc
      | Some d \<Rightarrow>
          if d < radix
          then parseDigits radix cs (Some (radix * (case acc of None \<Rightarrow> 0 | Some a \<Rightarrow> a) + d))
          else acc)"

definition stripSign :: "string \<Rightarrow> bool \<times> string" where
  "stripSign s =
     (case s of
        [] \<Rightarrow> (False, [])
      | c # cs \<Rightarrow>
          if c = CHR ''-'' then (True, cs)
          else if c = CHR ''+'' then (False, cs)
          else (False, c # cs))"

text \<open>
  \<^verbatim>\<open>parseInt(s)\<close> without a radix: leading white space, a sign, a \<^verbatim>\<open>0x\<close> prefix (radix 16),
  then the longest run of digits. \<open>None\<close> is NaN. The result is the integer read (the
  rounding of integers beyond 2^53 to a double is not modelled).
\<close>

definition parseInt :: "string \<Rightarrow> int option" where
  "parseInt s =
     (let (neg, u) = stripSign (dropWhile isWhiteSpace s);
          (radix, v) = (if take 2 u = ''0x'' \<or> take 2 u = ''0X'' then (16, drop 2 u) else (10, u))
      in case parseDigits radix v None of
           None \<Rightarrow> None
         | Some n \<Rightarrow> Some (if neg then - int n else int n))"

text \<open>
  The numbers \<^verbatim>\<open>parseFloat\<close> returns. \<open>Finite q\<close> carries the mathematical value of the
  decimal literal that was read; the rounding of that value to a double (the same rounding
  a numeric literal of the program text gets) is not modelled.
\<close>

datatype jsnum = Finite rat | PosInfinity | NegInfinity | NaN

definition digitsValue :: "string \<Rightarrow> nat" where
  "digitsValue ds = (case parseDigits 10 ds None of None \<Rightarrow> 0 | Some n \<Rightarrow> n)"

definition exponentPart :: "string \<Rightarrow> int" where
  "exponentPart r =
     (case r of
        [] \<Rightarrow> 0
      | e # r' \<Rightarrow>
          if e = CHR ''e'' \<or> e = CHR ''E''
          then (let (eneg, r'') = stripSign r'; ed = takeWhile isDigit r''
                in if ed = [] then 0
                   else if eneg then - int (digitsValue ed) else int (digitsValue ed))
          else 0)"

definition scale10 :: "rat \<Rightarrow> int \<Rightarrow> rat" where
  "scale10 q e = (if 0 \<le> e then q * 10 ^ nat e else q / 10 ^ nat (- e))"

definition parseFloat :: "string \<Rightarrow> jsnum" where
  "parseFloat s =
     (let (neg, u) = stripSign (dropWhile isWhiteSpace s)
      in if take 8 u = ''Infinity'' then (if neg then NegInfinity else PosInfinity)
         else
           (let intDigits = takeWhile isDigit u;
                r1 = dropWhile isDigit u;
                (fracDigits, r2) =
                  (case r1 of
                     [] \<Rightarrow> ([], [])
                   | c # r \<Rightarrow>
                       if c = CHR ''.'' then (takeWhile isDigit r, dropWhile isDigit r)
                       else ([], c # r))
            in if intDigits = [] \<and> fracDigits = [] then NaN
               else
                 (let mantissa = of_nat (digitsValue (intDigits @ fracDigits))
                                   / 10 ^ length fracDigits;
                      v = scale10 mantissa (exponentPart r2)
                  in Finite (if neg then - v else v))))"

text \<open>A number in a template literal: the decimal digits of an integer.\<close>

definition digitChar :: "nat \<Rightarrow> char" where
  "digitChar d = ''0123456789'' ! d"

function showNat :: "nat \<Rightarrow> string" where
  "showNat n = (if n < 10 then [digitChar n] else showNat (n div 10) @ [digitChar (n mod 10)])"
  by pat_completeness auto
termination
  by (relation "measure id") auto

definition showInt :: "int \<Rightarrow> string" where
  "showInt i = (if i < 0 then CHR ''-'' # showNat (nat (- i)) else showNat (nat i))"

section \<open>Extraction schemas (src/lib/ai/schemas.ts)\<close>

text \<open>
  Field names carry a prefix where two interfaces of the source share a field name.
  Priorities and page numbers are the integers the schema describes.
\<close>

record NoticeLevelData =
  notice_id :: string
  respondent :: string
  infraction_address :: string
  date_of_service :: string
  total_fines :: string

record WorkOrder =
  wo_item_number :: int
  wo_violation_code :: string
  wo_priority :: int
  wo_abatement_deadline :: string
  wo_fine :: string
  wo_violation_description :: string
  wo_specific_location :: string
  wo_floor_number :: string
  wo_date_of_infraction :: string
  wo_time_of_infraction :: string
  wo_task_description :: string

record NOIParseResult =
  notice_level_data :: NoticeLevelData
  work_orders :: "WorkOrder list"

record PageAnalysis =
  page_number :: int
  page_violation_code :: "string option"
  page_description :: string
  is_evidence_photo :: bool

record ParseStepStatus =
  step :: string
  status :: string
  message :: "string option"
  started_at :: "string option"
  completed_at :: "string option"
  error :: "string option"

text \<open>The five step names of \<^verbatim>\<open>ParseStepName\<close>.\<close>

definition ParseStepName :: "string list" where
  "ParseStepName = [''ai_parse'', ''insert_records'', ''analyze_pages'', ''match_photos'', ''complete'']"

text \<open>JSON-like values: log payloads and the ad hoc fields of the parse metadata.\<close>

datatype json =
    JNull | JBool bool | JNum int | JStr string | JArr "json list" | JObj "(string \<times> json) list"

record LogEntry =
  log_ts :: string
  log_level :: string
  log_step :: string
  log_message :: string
  log_data :: "json option"

text \<open>
  The persisted \<^verbatim>\<open>parse_metadata\<close>: \<open>steps\<close> and \<open>logs\<close> may be missing (the column
  defaults to \<^verbatim>\<open>{}\<close>); every other key is kept in \<open>meta_other\<close>.
\<close>

record ParseMetadata =
  meta_steps :: "ParseStepStatus list option"
  meta_logs :: "LogEntry list option"
  meta_other :: "string \<rightharpoonup> json"

text \<open>The columns of a \<^verbatim>\<open>violations\<close> row that the logger reads and writes.\<close>

record ViolationRow =
  parse_status :: string
  parse_metadata :: "ParseMetadata option"

section \<open>Progress ledger (src/lib/parse-logger.ts)\<close>

record Check =
  check_name :: string
  check_passed :: bool
  check_detail :: "string option"

record StepVerification =
  passed :: bool
  checks :: "Check list"

record ParseLogger =
  violationId :: string
  logs :: "LogEntry list"
  steps :: "ParseStepStatus list"
  extras :: "string \<rightharpoonup> json"

definition newParseLogger :: "string \<Rightarrow> ParseLogger" where
  "newParseLogger vid = \<lparr>violationId = vid, logs = [], steps = [], extras = Map.empty\<rparr>"

text \<open>
  Every \<^verbatim>\<open>new Date().toISOString()\<close> of the source is a parameter of the model: the reading
  of the clock at that call.
\<close>

definition addLog :: "ParseLogger \<Rightarrow> string \<Rightarrow> string \<Rightarrow> string \<Rightarrow> json option \<Rightarrow> string \<Rightarrow> ParseLogger" where
  "addLog lg level stepName msg payload now =
     lg\<lparr>logs := logs lg @ [\<lparr>log_ts = now, log_level = level, log_step = stepName,
                               log_message = msg, log_data = payload\<rparr>]\<rparr>"

definition log_info :: "ParseLogger \<Rightarrow> string \<Rightarrow> string \<Rightarrow> json option \<Rightarrow> string \<Rightarrow> ParseLogger" where
  "log_info lg stepName msg payload now = addLog lg ''info'' stepName msg payload now"

definition log_warn :: "ParseLogger \<Rightarrow> string \<Rightarrow> string \<Rightarrow> json option \<Rightarrow> string \<Rightarrow> ParseLogger" where
  "log_warn lg stepName msg payload now = addLog lg ''warn'' stepName msg payload now"

definition log_error :: "ParseLogger \<Rightarrow> string \<Rightarrow> string \<Rightarrow> json option \<Rightarrow> string \<Rightarrow> ParseLogger" where
  "log_error lg stepName msg payload now = addLog lg ''error'' stepName msg payload now"

definition log_debug :: "ParseLogger \<Rightarrow> string \<Rightarrow> string \<Rightarrow> json option \<Rightarrow> string \<Rightarrow> ParseLogger" where
  "log_debug lg stepName msg payload now = addLog lg ''debug'' stepName msg payload now"

text \<open>\<^verbatim>\<open>Array.prototype.findIndex\<close>: \<open>None\<close> is the source's \<open>-1\<close>.\<close>

fun findIndex :: "('a \<Rightarrow> bool) \<Rightarrow> 'a list \<Rightarrow> nat option" where
  "findIndex P [] = None"
| "findIndex P (x # xs) = (if P x then Some 0 else map_option Suc (findIndex P xs))"

definition upsertStep :: "ParseLogger \<Rightarrow> string \<Rightarrow> string \<Rightarrow> string option \<Rightarrow> string \<Rightarrow> ParseLogger" where
  "upsertStep lg stepName st msg now =
     (let idx = findIndex (\<lambda>s. step s = stepName) (steps lg);
          stepData = \<lparr>step = stepName, status = st, message = msg,
                      started_at = (if st = ''running'' then Some now else None),
                      completed_at = (if st = ''completed'' \<or> st = ''failed'' then Some now else None),
                      error = None\<rparr>
      in case idx of
           Some i \<Rightarrow>
             (let stepData' =
                    (if truthy (started_at (steps lg ! i)) \<and> \<not> truthy (started_at stepData)
                     then stepData\<lparr>started_at := started_at (steps lg ! i)\<rparr>
                     else stepData)
              in lg\<lparr>steps := (steps lg)[i := stepData']\<rparr>)
         | None \<Rightarrow> lg\<lparr>steps := steps lg @ [stepData]\<rparr>)"

text \<open>One round of the merge loop of \<^verbatim>\<open>flush\<close>, and the loop over the in-memory steps.\<close>

definition mergeStep :: "ParseStepStatus list \<Rightarrow> ParseStepStatus \<Rightarrow> ParseStepStatus list" where
  "mergeStep mergedSteps st =
     (case findIndex (\<lambda>s. step s = step st) mergedSteps of
        Some idx \<Rightarrow> mergedSteps[idx := st]
      | None \<Rightarrow> mergedSteps @ [st])"

definition mergeSteps :: "ParseStepStatus list \<Rightarrow> ParseStepStatus list \<Rightarrow> ParseStepStatus list" where
  "mergeSteps existingSteps mine = foldl mergeStep existingSteps mine"

text \<open>
  The status derived from the merged steps when \<^verbatim>\<open>flush\<close> gets no status to force;
  \<open>None\<close> leaves the column as it is.
\<close>

definition deriveParseStatus :: "ParseStepStatus list \<Rightarrow> string option" where
  "deriveParseStatus mergedSteps =
     (let hasFailed = list_ex (\<lambda>s. status s = ''failed'') mergedSteps;
          allComplete = (length mergedSteps > 0 \<and> list_all (\<lambda>s. status s = ''completed'') mergedSteps);
          hasRunning = list_ex (\<lambda>s. status s = ''running'') mergedSteps
      in if hasFailed then Some ''failed''
         else if allComplete then Some ''completed''
         else if hasRunning then Some ''processing''
         else None)"

definition emptyMeta :: ParseMetadata where
  "emptyMeta = \<lparr>meta_steps = None, meta_logs = None, meta_other = Map.empty\<rparr>"

text \<open>
  \<^verbatim>\<open>flush\<close> reads the row of the violation (\<open>None\<close>: no such row, and then the update
  changes nothing), merges and writes back. It returns the logger with its log buffer
  cleared, and the row. No call site stores \<^verbatim>\<open>steps\<close> or \<^verbatim>\<open>logs\<close> among the extras, so
  the spread of the extras reaches the other keys only.
\<close>

definition flush :: "ParseLogger \<Rightarrow> string option \<Rightarrow> ViolationRow option \<Rightarrow> ParseLogger \<times> ViolationRow option" where
  "flush lg parseStatus existing =
     (let existingMeta =
            (case existing of
               None \<Rightarrow> emptyMeta
             | Some row \<Rightarrow> (case parse_metadata row of None \<Rightarrow> emptyMeta | Some m \<Rightarrow> m));
          existingSteps = (case meta_steps existingMeta of None \<Rightarrow> [] | Some ss \<Rightarrow> ss);
          existingLogs = (case meta_logs existingMeta of None \<Rightarrow> [] | Some ls \<Rightarrow> ls);
          mergedSteps = mergeSteps existingSteps (steps lg);
          mergedLogs = existingLogs @ logs lg;
          metadata = \<lparr>meta_steps = Some mergedSteps, meta_logs = Some mergedLogs,
                      meta_other = meta_other existingMeta ++ extras lg\<rparr>;
          newStatus = (if truthy parseStatus then parseStatus else deriveParseStatus mergedSteps)
      in (lg\<lparr>logs := []\<rparr>,
          map_option
            (\<lambda>row. row\<lparr>parse_metadata := Some metadata,
                        parse_status := (case newStatus of None \<Rightarrow> parse_status row | Some s \<Rightarrow> s)\<rparr>)
            existing))"

definition stepStart :: "ParseLogger \<Rightarrow> string \<Rightarrow> string \<Rightarrow> string \<Rightarrow> string \<Rightarrow> ViolationRow option
                          \<Rightarrow> ParseLogger \<times> ViolationRow option" where
  "stepStart lg stepName msg tLog tStep db =
     flush (upsertStep (log_info lg stepName (''STARTED: '' @ msg) None tLog)
              stepName ''running'' (Some msg) tStep)
       None db"

definition stepFail :: "ParseLogger \<Rightarrow> string \<Rightarrow> string \<Rightarrow> json option \<Rightarrow> string \<Rightarrow> string \<Rightarrow> ViolationRow option
                         \<Rightarrow> ParseLogger \<times> ViolationRow option" where
  "stepFail lg stepName msg payload tLog tStep db =
     flush (upsertStep (log_error lg stepName (''FAILED: '' @ msg) payload tLog)
              stepName ''failed'' (Some msg) tStep)
       (Some ''failed'') db"

definition checkJson :: "Check \<Rightarrow> json" where
  "checkJson c =
     JObj ([(''name'', JStr (check_name c)), (''passed'', JBool (check_passed c))]
           @ (case check_detail c of None \<Rightarrow> [] | Some d \<Rightarrow> [(''detail'', JStr d)]))"

definition verificationJson :: "StepVerification \<Rightarrow> json" where
  "verificationJson v =
     JObj [(''passed'', JBool (passed v)), (''checks'', JArr (map checkJson (checks v)))]"

text \<open>
  \<^verbatim>\<open>stepComplete\<close>: a verification that did not pass turns the call into \<^verbatim>\<open>stepFail\<close>.
  \<open>tVerify\<close>, \<open>tLog\<close> and \<open>tStep\<close> are the clock readings of the verification log line,
  of the COMPLETED or FAILED log line and of the step record.
\<close>

definition stepComplete :: "ParseLogger \<Rightarrow> string \<Rightarrow> string \<Rightarrow> StepVerification option \<Rightarrow> (string \<rightharpoonup> json) option
                             \<Rightarrow> string \<Rightarrow> string \<Rightarrow> string \<Rightarrow> ViolationRow option
                             \<Rightarrow> ParseLogger \<times> ViolationRow option" where
  "stepComplete lg stepName msg verification extra tVerify tLog tStep db =
     (let complete = (\<lambda>lg0.
            flush ((upsertStep (log_info lg0 stepName (''COMPLETED: '' @ msg) None tLog)
                      stepName ''completed'' (Some msg) tStep)
                   \<lparr>extras := (case extra of
                                  None \<Rightarrow> extras lg0
                                | Some ex \<Rightarrow> extras lg0 ++ ex)\<rparr>)
              None db)
      in case verification of
           None \<Rightarrow> complete lg
         | Some v \<Rightarrow>
             (let failedChecks = filter (\<lambda>c. \<not> check_passed c) (checks v);
                  lg1 = (if length failedChecks > 0
                         then log_warn lg stepName
                                (''Verification warnings: '' @ join '', '' (map check_name failedChecks))
                                (Some (JObj [(''checks'', JArr (map checkJson (checks v)))])) tVerify
                         else log_info lg stepName
                                (''Verification passed: '' @ join '', '' (map check_name (checks v)))
                                None tVerify)
              in if \<not> passed v
                 then stepFail lg1 stepName
                        (''Verification failed: ''
                           @ join ''; ''
                               (map (\<lambda>f. check_name f @ '': ''
                                            @ (case check_detail f of None \<Rightarrow> ''undefined'' | Some d \<Rightarrow> d))
                                  failedChecks))
                        (Some (JObj [(''verification'', verificationJson v)])) tLog tStep db
                 else complete lg1))"

section \<open>The parse request (POST handler that sends \<^verbatim>\<open>noi/parse.requested\<close>)\<close>

text \<open>
  The only sender of the event inserts the violation row before it sends the event: the
  parse status is \<^verbatim>\<open>pending\<close> and \<^verbatim>\<open>parse_metadata.steps\<close> holds one entry, with status
  \<^verbatim>\<open>pending\<close> and no other field, for each of the five steps.
\<close>

definition pendingStep :: "string \<Rightarrow> ParseStepStatus" where
  "pendingStep n =
     \<lparr>step = n, status = ''pending'', message = None, started_at = None, completed_at = None,
      error = None\<rparr>"

definition insertedViolation :: ViolationRow where
  "insertedViolation =
     \<lparr>parse_status = ''pending'',
      parse_metadata =
        Some \<lparr>meta_steps =
                Some [pendingStep ''ai_parse'', pendingStep ''insert_records'',
                      pendingStep ''analyze_pages'', pendingStep ''match_photos'',
                      pendingStep ''complete''],
              meta_logs = None, meta_other = Map.empty\<rparr>\<rparr>"

text \<open>
  The init step of \<^verbatim>\<open>parseNOI\<close> updates the row with \<^verbatim>\<open>parse_status: 'processing'\<close> (and the
  violation status, which is not a column of this model).
\<close>

definition initStep :: "ViolationRow option \<Rightarrow> ViolationRow option" where
  "initStep db = map_option (\<lambda>row. row\<lparr>parse_status := ''processing''\<rparr>) db"

section \<open>Time values of the JavaScript \<^verbatim>\<open>Date\<close> object\<close>

text \<open>
  A \<^verbatim>\<open>Date\<close> holds a time value: the milliseconds since 1970-01-01T00:00:00Z, or NaN
  (\<open>None\<close>) for an Invalid Date. \<^verbatim>\<open>getDate\<close> and \<^verbatim>\<open>setDate\<close> work in the local time of the
  process and \<^verbatim>\<open>toISOString\<close> in UTC. The local time zone is a parameter of the model:
  \<open>tzaUTC\<close> is the offset of local time from UTC, in milliseconds, at a UTC time value
  (\<^verbatim>\<open>LocalTZA(t, true)\<close> of ECMAScript) and \<open>tzaLocal\<close> the offset at a local time value
  (\<^verbatim>\<open>LocalTZA(t, false)\<close>).
\<close>

datatype error = RangeError

definition isLeapYear :: "int \<Rightarrow> bool" where
  "isLeapYear y = (y mod 4 = 0 \<and> (y mod 100 \<noteq> 0 \<or> y mod 400 = 0))"

definition daysInMonth :: "int \<Rightarrow> int \<Rightarrow> int" where
  "daysInMonth y m =
     (if m = 2 then (if isLeapYear y then 29 else 28)
      else if m = 4 \<or> m = 6 \<or> m = 9 \<or> m = 11 then 30 else 31)"

definition daysFromCivil :: "int \<Rightarrow> int \<Rightarrow> int \<Rightarrow> int" where
  "daysFromCivil y m d =
     (let y' = (if m \<le> 2 then y - 1 else y);
          era = y' div 400;
          yoe = y' - era * 400;
          mp = (m + 9) mod 12;
          doy = (153 * mp + 2) div 5 + d - 1;
          doe = yoe * 365 + yoe div 4 - yoe div 100 + doy
      in era * 146097 + doe - 719468)"

definition civilFromDays :: "int \<Rightarrow> int \<times> int \<times> int" where
  "civilFromDays z =
     (let z' = z + 719468;
          era = z' div 146097;
          doe = z' - era * 146097;
          yoe = (doe - doe div 1460 + doe div 36524 - doe div 146096) div 365;
          doy = doe - (365 * yoe + yoe div 4 - yoe div 100);
          mp = (5 * doy + 2) div 153;
          d = doy - (153 * mp + 2) div 5 + 1;
          m = (if mp < 10 then mp + 3 else mp - 9);
          y = yoe + era * 400
      in (if m \<le> 2 then y + 1 else y, m, d))"

record Zone =
  tzaUTC :: "int \<Rightarrow> int"
  tzaLocal :: "int \<Rightarrow> int"

definition msPerDay :: int where
  "msPerDay = 86400000"

definition Day :: "int \<Rightarrow> int" where
  "Day t = t div msPerDay"

definition TimeWithinDay :: "int \<Rightarrow> int" where
  "TimeWithinDay t = t mod msPerDay"

definition LocalTime :: "Zone \<Rightarrow> int \<Rightarrow> int" where
  "LocalTime tz t = t + tzaUTC tz t"

definition UTC :: "Zone \<Rightarrow> int \<Rightarrow> int" where
  "UTC tz t = t - tzaLocal tz t"

definition TimeClip :: "int \<Rightarrow> int option" where
  "TimeClip t = (if \<bar>t\<bar> > 8640000000000000 then None else Some t)"

definition DateFromTime :: "int \<Rightarrow> int" where
  "DateFromTime t = (case civilFromDays (Day t) of (y, m, d) \<Rightarrow> d)"

definition getDate :: "Zone \<Rightarrow> int \<Rightarrow> int" where
  "getDate tz t = DateFromTime (LocalTime tz t)"

text \<open>
  \<^verbatim>\<open>setDate(dt)\<close> on a valid date: the new local time is day \<open>dt\<close> of the month of the
  local time, at the same time of day, and the new time value is its UTC time, clipped to
  the range of time values. \<^verbatim>\<open>MakeDay(year, month, dt)\<close> is the day number of the first
  day of that month plus \<open>dt - 1\<close>; the first day of the month of a local time \<open>lt\<close> is
  \<open>DateFromTime lt - 1\<close> days before the day of \<open>lt\<close>.
\<close>

definition setDate :: "Zone \<Rightarrow> int \<Rightarrow> int \<Rightarrow> int option" where
  "setDate tz t dt =
     (let lt = LocalTime tz t;
          firstOfMonth = Day lt - (DateFromTime lt - 1);
          newDay = firstOfMonth + dt - 1;
          newLocal = newDay * msPerDay + TimeWithinDay lt
      in TimeClip (UTC tz newLocal))"

text \<open>
  The ECMAScript date-only form \<^verbatim>\<open>YYYY-MM-DD\<close> naming a day of the calendar: the day
  number of that day.
\<close>

definition isoDateOnly :: "string \<Rightarrow> int option" where
  "isoDateOnly s =
     (if length s = 10 \<and> s ! 4 = CHR ''-'' \<and> s ! 7 = CHR ''-''
         \<and> list_all isDigit (take 4 s) \<and> list_all isDigit (take 2 (drop 5 s))
         \<and> list_all isDigit (drop 8 s)
      then (let y = int (digitsValue (take 4 s));
                m = int (digitsValue (take 2 (drop 5 s)));
                d = int (digitsValue (drop 8 s))
            in if 1 \<le> m \<and> m \<le> 12 \<and> 1 \<le> d \<and> d \<le> daysInMonth y m
               then Some (daysFromCivil y m d) else None)
      else None)"

text \<open>
  \<^verbatim>\<open>new Date(s)\<close>. A date-only form that names a day of the calendar is UTC midnight of
  that day, as ECMAScript prescribes. What the engine makes of any other string (a day
  past the end of the month, other separators, any other text) is left to the
  implementation by ECMAScript and is a parameter of the model: \<open>engineParse s\<close> is the
  time value that the engine reads from \<open>s\<close>, or \<open>None\<close> for an Invalid Date.
\<close>

definition newDate :: "(string \<Rightarrow> int option) \<Rightarrow> string \<Rightarrow> int option" where
  "newDate engineParse s =
     (case isoDateOnly s of
        Some day \<Rightarrow> Some (day * msPerDay)
      | None \<Rightarrow> (case engineParse s of None \<Rightarrow> None | Some t \<Rightarrow> TimeClip t))"

text \<open>
  The date part of \<^verbatim>\<open>toISOString()\<close> for a day number: years outside 0..9999 print with
  a sign and six digits.
\<close>

definition isoDateOfDay :: "int \<Rightarrow> string" where
  "isoDateOfDay z =
     (case civilFromDays z of
        (y, m, d) \<Rightarrow>
          (if 0 \<le> y \<and> y \<le> 9999 then padStart 4 (CHR ''0'') (showNat (nat y))
           else (if y < 0 then CHR ''-'' else CHR ''+'')
                  # padStart 6 (CHR ''0'') (showNat (nat \<bar>y\<bar>)))
          @ ''-'' @ padStart 2 (CHR ''0'') (showNat (nat m))
          @ ''-'' @ padStart 2 (CHR ''0'') (showNat (nat d)))"

text \<open>
  \<^verbatim>\<open>toISOString().split('T')[0]\<close>: a RangeError on an Invalid Date, and the UTC date of the
  time value otherwise.
\<close>

definition toISODate :: "int option \<Rightarrow> error + string" where
  "toISODate tv =
     (case tv of
        None \<Rightarrow> Inl RangeError
      | Some t \<Rightarrow> Inr (isoDateOfDay (Day t)))"

section \<open>The insert-records step of parseNOI (src/app/(authenticated)/layout.tsx)\<close>

definition parseFine :: "string \<Rightarrow> jsnum option" where
  "parseFine fineStr =
     (let cleaned = filter (\<lambda>c. c \<noteq> CHR ''$'' \<and> c \<noteq> CHR '','') fineStr;
          num = parseFloat cleaned
      in if num = NaN then None else Some num)"

definition parseDate :: "string \<Rightarrow> string option" where
  "parseDate dateStr =
     (if dateStr = [] then None
      else (case split (CHR ''/'') dateStr of
              [month, day, year] \<Rightarrow>
                Some (year @ ''-'' @ padStart 2 (CHR ''0'') month @ ''-'' @ padStart 2 (CHR ''0'') day)
            | _ \<Rightarrow> None))"

text \<open>\<^verbatim>\<open>parseInt(wo.abatement_deadline) || 60\<close>: NaN and 0 are falsy.\<close>

definition deadlineDays :: "WorkOrder \<Rightarrow> int" where
  "deadlineDays wo =
     (case parseInt (wo_abatement_deadline wo) of
        None \<Rightarrow> 60
      | Some n \<Rightarrow> if n = 0 then 60 else n)"

text \<open>\<^verbatim>\<open>Math.min(...xs)\<close>; \<open>None\<close> is the \<^verbatim>\<open>Infinity\<close> of an empty argument list.\<close>

fun Math_min :: "int list \<Rightarrow> int option" where
  "Math_min [] = None"
| "Math_min (x # xs) = Some (case Math_min xs of None \<Rightarrow> x | Some m \<Rightarrow> min x m)"

text \<open>
  The deadline of the record. \<^verbatim>\<open>Math.min\<close> of no argument is \<^verbatim>\<open>Infinity\<close>, and
  \<^verbatim>\<open>setDate\<close> of a number that is not finite, or on an Invalid Date, leaves an Invalid
  Date, on which \<^verbatim>\<open>toISOString\<close> throws.
\<close>

definition deadlineDate :: "Zone \<Rightarrow> (string \<Rightarrow> int option) \<Rightarrow> NOIParseResult \<Rightarrow> error + string option" where
  "deadlineDate tz engineParse r =
     (let serviceDate = parseDate (date_of_service (notice_level_data r))
      in if truthy serviceDate \<and> length (work_orders r) > 0
         then (case serviceDate of
                 None \<Rightarrow> Inr None
               | Some sd \<Rightarrow>
                   (case Math_min (map deadlineDays (work_orders r)) of
                      None \<Rightarrow> Inl RangeError
                    | Some shortestDeadline \<Rightarrow>
                        (case newDate engineParse sd of
                           None \<Rightarrow> Inl RangeError
                         | Some deadline \<Rightarrow>
                             (case toISODate
                                     (setDate tz deadline (getDate tz deadline + shortestDeadline)) of
                                Inl e \<Rightarrow> Inl e
                              | Inr isoDate \<Rightarrow> Inr (Some isoDate)))))
         else Inr None)"

text \<open>The payload of the update of the violation record.\<close>

record ViolationUpdate =
  upd_notice_id :: string
  upd_respondent :: string
  upd_infraction_address :: string
  upd_date_of_service :: "string option"
  upd_total_fines :: "jsnum option"
  upd_abatement_deadline :: "string option"
  upd_priority :: "int option"
  upd_raw_ai_output :: NOIParseResult

definition violationUpdate :: "Zone \<Rightarrow> (string \<Rightarrow> int option) \<Rightarrow> NOIParseResult
                               \<Rightarrow> error + ViolationUpdate" where
  "violationUpdate tz engineParse aiResult =
     (case deadlineDate tz engineParse aiResult of
        Inl e \<Rightarrow> Inl e
      | Inr deadline \<Rightarrow>
          Inr \<lparr>upd_notice_id = notice_id (notice_level_data aiResult),
               upd_respondent = respondent (notice_level_data aiResult),
               upd_infraction_address = infraction_address (notice_level_data aiResult),
               upd_date_of_service = parseDate (date_of_service (notice_level_data aiResult)),
               upd_total_fines = parseFine (total_fines (notice_level_data aiResult)),
               upd_abatement_deadline = deadline,
               upd_priority = Math_min (map wo_priority (work_orders aiResult) @ [3]),
               upd_raw_ai_output = aiResult\<rparr>)"

section \<open>The match-photos step of parseNOI (src/app/(authenticated)/layout.tsx)\<close>

record EventData =
  ev_violationId :: string
  pdfStoragePath :: string
  orgId :: string

text \<open>A row of \<^verbatim>\<open>violation_items\<close> as the step selects it, and a row of \<^verbatim>\<open>photos\<close> as it inserts it.\<close>

record ItemRow =
  item_id :: string
  item_violation_code :: "string option"

record PhotoRow =
  photo_org_id :: string
  photo_violation_id :: string
  violation_item_id :: "string option"
  photo_type :: string
  storage_path :: string
  file_name :: string
  photo_page_number :: int
  matched_violation_code :: string
  photo_status :: string
  photo_metadata_description :: string

record MatchLogEntry =
  ml_page :: int
  ml_code :: string
  ml_matched_item_id :: "string option"

definition normalizeCode :: "string \<Rightarrow> string" where
  "normalizeCode code = toLowerCase (trim (replaceWhiteSpaceRuns code))"

text \<open>The predicate of \<^verbatim>\<open>items.find\<close> for a page code.\<close>

definition codeMatches :: "string \<Rightarrow> ItemRow \<Rightarrow> bool" where
  "codeMatches pageCode item =
     (truthy (item_violation_code item)
      \<and> (case item_violation_code item of
            None \<Rightarrow> False
          | Some c \<Rightarrow> normalizeCode c = normalizeCode pageCode))"

definition matchedItemId :: "ItemRow option \<Rightarrow> string option" where
  "matchedItemId matchedItem =
     (case matchedItem of
        None \<Rightarrow> None
      | Some item \<Rightarrow> if item_id item = [] then None else Some (item_id item))"

definition photoRow :: "EventData \<Rightarrow> PageAnalysis \<Rightarrow> string \<Rightarrow> ItemRow option \<Rightarrow> PhotoRow" where
  "photoRow ev page code matchedItem =
     \<lparr>photo_org_id = orgId ev,
      photo_violation_id = ev_violationId ev,
      violation_item_id = matchedItemId matchedItem,
      photo_type = ''INSPECTOR'',
      storage_path = pdfStoragePath ev,
      file_name = ''page_'' @ showInt (page_number page) @ ''.pdf'',
      photo_page_number = page_number page,
      matched_violation_code = code,
      photo_status = ''APPROVED'',
      photo_metadata_description = page_description page\<rparr>"

text \<open>
  The state of the loop over the pages: the two counters, the match log, the rows of the
  \<^verbatim>\<open>photos\<close> table and the logger. \<open>insertError\<close> is the answer of the store to an insert:
  \<open>None\<close> when the row is written, the error message when it is refused.
\<close>

record MatchState =
  matchedCount :: nat
  unmatchedCount :: nat
  matchLog :: "MatchLogEntry list"
  photos :: "PhotoRow list"
  logger :: ParseLogger

definition matchPage :: "EventData \<Rightarrow> (PhotoRow \<Rightarrow> string option) \<Rightarrow> ItemRow list \<Rightarrow> string
                          \<Rightarrow> MatchState \<Rightarrow> PageAnalysis \<Rightarrow> MatchState" where
  "matchPage ev insertError items now st page =
     (if \<not> is_evidence_photo page \<or> \<not> truthy (page_violation_code page) then st
      else (case page_violation_code page of
              None \<Rightarrow> st
            | Some code \<Rightarrow>
                (let matchedItem = find (codeMatches code) items;
                     st1 = st\<lparr>matchLog := matchLog st
                                 @ [\<lparr>ml_page = page_number page, ml_code = code,
                                      ml_matched_item_id = matchedItemId matchedItem\<rparr>]\<rparr>;
                     st2 = (if matchedItem = None
                            then st1\<lparr>logger := log_warn (logger st1) ''match_photos''
                                        (''No item match for page '' @ showInt (page_number page)
                                           @ '' code \"'' @ code @ ''\"'')
                                        (Some (JObj [(''available_codes'',
                                           JArr (map (\<lambda>i. case item_violation_code i of
                                                             None \<Rightarrow> JNull | Some c \<Rightarrow> JStr c) items))]))
                                        now,
                                      unmatchedCount := unmatchedCount st1 + 1\<rparr>
                            else st1);
                     row = photoRow ev page code matchedItem
                 in case insertError row of
                      Some msg \<Rightarrow>
                        st2\<lparr>logger := log_error (logger st2) ''match_photos''
                               (''Failed to insert photo for page '' @ showInt (page_number page)
                                  @ '': '' @ msg)
                               None now\<rparr>
                    | None \<Rightarrow>
                        st2\<lparr>photos := photos st2 @ [row], matchedCount := matchedCount st2 + 1\<rparr>)))"

definition matchLoop :: "EventData \<Rightarrow> (PhotoRow \<Rightarrow> string option) \<Rightarrow> ItemRow list \<Rightarrow> string
                          \<Rightarrow> MatchState \<Rightarrow> PageAnalysis list \<Rightarrow> MatchState" where
  "matchLoop ev insertError items now st pages = foldl (matchPage ev insertError items now) st pages"

definition matchExtras :: "MatchState \<Rightarrow> (string \<rightharpoonup> json)" where
  "matchExtras st =
     [''photos_matched'' \<mapsto> JNum (int (matchedCount st)),
      ''photos_unmatched'' \<mapsto> JNum (int (unmatchedCount st)),
      ''match_details'' \<mapsto>
         JArr (map (\<lambda>e. JObj [(''page'', JNum (ml_page e)), (''code'', JStr (ml_code e)),
                               (''matched_item_id'',
                                (case ml_matched_item_id e of None \<Rightarrow> JNull | Some i \<Rightarrow> JStr i))])
                 (matchLog st))]"

text \<open>
  The whole step: the state of the world is the violation row and the rows of \<^verbatim>\<open>photos\<close>;
  \<open>items\<close> is the answer of the select on \<^verbatim>\<open>violation_items\<close> (\<open>None\<close>: no data).
  \<open>tStart\<close>, \<open>tLoop\<close> and \<open>tEnd\<close> are the clock readings of the start of the step, of the
  log lines of the loop and of the completion. The dash in the detail text of the skipped
  check is written as a hyphen.
\<close>

definition matchPhotosStep :: "EventData \<Rightarrow> (PhotoRow \<Rightarrow> string option) \<Rightarrow> ItemRow list option
                                \<Rightarrow> PageAnalysis list \<Rightarrow> string \<Rightarrow> string \<Rightarrow> string
                                \<Rightarrow> ParseLogger \<Rightarrow> ViolationRow option \<Rightarrow> PhotoRow list
                                \<Rightarrow> ParseLogger \<times> ViolationRow option \<times> PhotoRow list" where
  "matchPhotosStep ev insertError items pages tStart tLoop tEnd lg db photoRows =
     (case stepStart lg ''match_photos'' ''Matching evidence photos to violation items by code''
             tStart tStart db of
        (lg1, db1) \<Rightarrow>
          (if (case items of None \<Rightarrow> True | Some its \<Rightarrow> length its = 0)
           then (case stepComplete lg1 ''match_photos'' ''No violation items to match photos to''
                        (Some \<lparr>passed = True,
                               checks = [\<lparr>check_name = ''items available'', check_passed = False,
                                          check_detail = Some ''Skipped - no items in DB''\<rparr>]\<rparr>)
                        None tEnd tEnd tEnd db1 of
                   (lg2, db2) \<Rightarrow> (lg2, db2, photoRows))
           else (case items of
                   None \<Rightarrow> (lg1, db1, photoRows)
                 | Some its \<Rightarrow>
                     (let lg2 = log_info lg1 ''match_photos''
                                  (''Found '' @ showNat (length its) @ '' items to match against'')
                                  (Some (JObj [(''item_codes'',
                                     JArr (map (\<lambda>i. case item_violation_code i of
                                                       None \<Rightarrow> JNull | Some c \<Rightarrow> JStr c) its))]))
                                  tLoop;
                          st = matchLoop ev insertError its tLoop
                                 \<lparr>matchedCount = 0, unmatchedCount = 0, matchLog = [],
                                  photos = photoRows, logger = lg2\<rparr>
                                 pages
                      in (case stepComplete (logger st) ''match_photos''
                                 (''Inserted '' @ showNat (matchedCount st) @ '' evidence photos (''
                                    @ showNat (unmatchedCount st) @ '' unmatched codes)'')
                                 (Some \<lparr>passed = True,
                                        checks =
                                          [\<lparr>check_name = ''photos inserted'',
                                            check_passed = (matchedCount st > 0),
                                            check_detail = Some (showNat (matchedCount st) @ '' photos'')\<rparr>,
                                           \<lparr>check_name = ''all codes matched'',
                                            check_passed = (unmatchedCount st = 0),
                                            check_detail =
                                              Some (if unmatchedCount st > 0
                                                    then showNat (unmatchedCount st) @ '' unmatched''
                                                    else ''all matched'')\<rparr>]\<rparr>)
                                 (Some (matchExtras st)) tEnd tEnd tEnd db1 of
                            (lg3, db3) \<Rightarrow> (lg3, db3, photos st))))))"

section \<open>Readings of the persisted state and sample inputs\<close>

text \<open>The persisted steps as \<^verbatim>\<open>flush\<close> and the progress view read them from the row.\<close>

definition persistedSteps :: "ViolationRow option \<Rightarrow> ParseStepStatus list" where
  "persistedSteps db =
     (case db of
        None \<Rightarrow> []
      | Some row \<Rightarrow>
          (case parse_metadata row of
             None \<Rightarrow> []
           | Some m \<Rightarrow> (case meta_steps m of None \<Rightarrow> [] | Some ss \<Rightarrow> ss)))"

definition persistedOther :: "ViolationRow option \<Rightarrow> (string \<rightharpoonup> json)" where
  "persistedOther db =
     (case db of
        None \<Rightarrow> Map.empty
      | Some row \<Rightarrow> (case parse_metadata row of None \<Rightarrow> Map.empty | Some m \<Rightarrow> meta_other m))"

text \<open>
  The reading of the specification for the status derivation: every one of the five
  known step names has an entry whose status is completed.
\<close>

definition spec_allFiveCompleted :: "ParseStepStatus list \<Rightarrow> bool" where
  "spec_allFiveCompleted ss =
     list_all (\<lambda>n. list_ex (\<lambda>s. step s = n \<and> status s = ''completed'') ss) ParseStepName"

text \<open>
  The shape of the steps of the inserted row: one entry for each of the five known step
  names and no other entry.
\<close>

definition oneEntryPerKnownStep :: "ParseStepStatus list \<Rightarrow> bool" where
  "oneEntryPerKnownStep ss = (distinct (map step ss) \<and> set (map step ss) = set ParseStepName)"

text \<open>
  The reading of the specification for the shortest deadline: the minimum of the item
  deadlines that parse as numbers, and 60 only when none parses.
\<close>

definition spec_shortestDeadline :: "WorkOrder list \<Rightarrow> int" where
  "spec_shortestDeadline wos =
     (case Math_min (concat (map (\<lambda>wo. case parseInt (wo_abatement_deadline wo) of
                                          None \<Rightarrow> [] | Some n \<Rightarrow> [n]) wos)) of
        None \<Rightarrow> 60
      | Some m \<Rightarrow> m)"

text \<open>
  The reading of the specification for a well-formed date: \<^verbatim>\<open>MM/DD/YYYY\<close>, digits only.
\<close>

definition spec_wellFormedDate :: "string \<Rightarrow> bool" where
  "spec_wellFormedDate s =
     (length s = 10 \<and> s ! 2 = CHR ''/'' \<and> s ! 5 = CHR ''/''
      \<and> list_all isDigit (take 2 s) \<and> list_all isDigit (take 2 (drop 3 s))
      \<and> list_all isDigit (drop 6 s))"

text \<open>
  Where a decimal literal or \<^verbatim>\<open>Infinity\<close> starts: what \<^verbatim>\<open>parseFloat\<close> needs after the
  white space and the sign.
\<close>

definition startsNumber :: "string \<Rightarrow> bool" where
  "startsNumber u =
     (take 8 u = ''Infinity''
      \<or> (case u of
            [] \<Rightarrow> False
          | c # r \<Rightarrow> isDigit c \<or> (c = CHR ''.'' \<and> (case r of [] \<Rightarrow> False | d # _ \<Rightarrow> isDigit d))))"

text \<open>
  Sample zones: a zone with a fixed offset (UTC is \<open>fixedZone 0\<close>), and the rules of
  \<^verbatim>\<open>America/New_York\<close> for 2025: five hours behind UTC, and four hours behind from
  2025-03-09T07:00Z to 2025-11-02T06:00Z. A local time that the change in March skips, or
  that the change in November repeats, is read with the offset before the change.
\<close>

definition fixedZone :: "int \<Rightarrow> Zone" where
  "fixedZone c = \<lparr>tzaUTC = (\<lambda>t. c), tzaLocal = (\<lambda>t. c)\<rparr>"

definition newYork2025 :: Zone where
  "newYork2025 =
     \<lparr>tzaUTC = (\<lambda>t. if 1741503600000 \<le> t \<and> t < 1762063200000 then - 14400000 else - 18000000),
      tzaLocal = (\<lambda>t. if 1741489200000 \<le> t \<and> t < 1762048800000 then - 14400000 else - 18000000)\<rparr>"

text \<open>
  A sample logger: the in-memory steps after the named steps have been started and
  completed, in this order, through \<^verbatim>\<open>upsertStep\<close>.
\<close>

definition sampleLogger :: "string list \<Rightarrow> ParseLogger" where
  "sampleLogger names =
     foldl (\<lambda>lg n. upsertStep (upsertStep lg n ''running'' (Some ''started'') ''T0'')
                      n ''completed'' (Some ''done'') ''T1'')
       (newParseLogger ''v1'') names"

text \<open>Sample inputs: a work order with a deadline text and a priority, and a notice.\<close>

definition sampleWorkOrder :: "string \<Rightarrow> int \<Rightarrow> WorkOrder" where
  "sampleWorkOrder deadline prio =
     \<lparr>wo_item_number = 1, wo_violation_code = ''12-G DCMR 309.1'', wo_priority = prio,
      wo_abatement_deadline = deadline, wo_fine = ''$625.00'', wo_violation_description = ''d'',
      wo_specific_location = ''Kitchen'', wo_floor_number = ''Interior'',
      wo_date_of_infraction = ''01/01/2025'', wo_time_of_infraction = ''10:24 PM'',
      wo_task_description = ''t''\<rparr>"

definition sampleNotice :: "string \<Rightarrow> WorkOrder list \<Rightarrow> NOIParseResult" where
  "sampleNotice serviceDate wos =
     \<lparr>notice_level_data =
        \<lparr>notice_id = ''25NOIR-INS-07709'', respondent = ''YOKE LEBAUM LLC'',
         infraction_address = ''557 LEBAUM ST SE'', date_of_service = serviceDate,
         total_fines = ''$1,234.56''\<rparr>,
      work_orders = wos\<rparr>"

definition sampleRow :: ViolationRow where
  "sampleRow = \<lparr>parse_status = ''processing'', parse_metadata = Some emptyMeta\<rparr>"

definition sampleEvent :: EventData where
  "sampleEvent = \<lparr>ev_violationId = ''v1'', pdfStoragePath = ''org/v1.pdf'', orgId = ''o1''\<rparr>"

definition samplePage :: "int \<Rightarrow> string option \<Rightarrow> bool \<Rightarrow> PageAnalysis" where
  "samplePage n code photo =
     \<lparr>page_number = n, page_violation_code = code, page_description = ''p'',
      is_evidence_photo = photo\<rparr>"

text \<open>
  A string in which every white-space character is a single space followed by a character
  that is not white space, or by the end of the string.
\<close>

fun singleSpaced :: "string \<Rightarrow> bool" where
  "singleSpaced [] = True"
| "singleSpaced [c] = (isWhiteSpace c \<longrightarrow> c = CHR '' '')"
| "singleSpaced (c # d # cs) =
     ((isWhiteSpace c \<longrightarrow> c = CHR '' '' \<and> \<not> isWhiteSpace d) \<and> singleSpaced (d # cs))"

text \<open>
  The violation codes of the matching example: the two item codes and the page code,
  with the section sign U+00A7.
\<close>

definition itemCodeRegular :: string where
  "itemCodeRegular = ''12-G DCMR '' @ [section_sign] @ '' 309.1''"

definition itemCodeIrregular :: string where
  "itemCodeIrregular = ''12-G DCMR  '' @ [section_sign] @ ''309.1''"

definition pageCodeLower :: string where
  "pageCodeLower = ''12-g dcmr '' @ [section_sign] @ '' 309.1''"

definition itemCodeSpaced :: string where
  "itemCodeSpaced = ''  12-g   DCMR '' @ [section_sign] @ '' 309.1 ''"

text \<open>
  The pages that the loop of the match-photos step does not skip, the code of such a page,
  and the row that the loop builds for it.
\<close>

definition qualifies :: "PageAnalysis \<Rightarrow> bool" where
  "qualifies page = (is_evidence_photo page \<and> truthy (page_violation_code page))"

definition pageCode :: "PageAnalysis \<Rightarrow> string" where
  "pageCode page = (case page_violation_code page of None \<Rightarrow> [] | Some c \<Rightarrow> c)"

definition attemptedRow :: "EventData \<Rightarrow> ItemRow list \<Rightarrow> PageAnalysis \<Rightarrow> PhotoRow" where
  "attemptedRow ev items page =
     photoRow ev page (pageCode page) (find (codeMatches (pageCode page)) items)"

lemma includes_set: "array_includes xs x = (x \<in> set xs)"
  by (induction xs) auto

lemma VALID_TRANSITIONS_total: "\<exists>allowed. VALID_TRANSITIONS s = Some allowed"
  by (cases s) simp_all

section \<open>Status transition guard\<close>

text \<open>
  Claim C8. The transition check accepts a transition exactly when the target state is
  listed in the allow-list of the current state (the list that \<open>getNextStatuses\<close> returns).
  Nothing leaves \<open>CLOSED\<close>, so \<open>CLOSED\<close> to \<open>ASSIGNED\<close> is rejected; \<open>SUBMITTED\<close> to
  \<open>APPROVED\<close> is accepted; and the targets admitted from \<open>NEW\<close> are exactly \<open>PARSING\<close>,
  \<open>ASSIGNED\<close> and \<open>CLOSED\<close>.
\<close>

theorem canTransition_allow_list:
  "canTransition from to = (to \<in> set (getNextStatuses from))
   \<and> (\<exists>allowed. VALID_TRANSITIONS from = Some allowed \<and> canTransition from to = (to \<in> set allowed))
   \<and> canTransition CLOSED to = False
   \<and> canTransition CLOSED ASSIGNED = False
   \<and> canTransition SUBMITTED APPROVED = True
   \<and> {t. canTransition NEW t} = {PARSING, ASSIGNED, CLOSED}"
proof -
  obtain allowed where a: "VALID_TRANSITIONS from = Some allowed"
    using VALID_TRANSITIONS_total by blast
  have 1: "canTransition from to = (to \<in> set (getNextStatuses from))"
    by (simp add: canTransition_def getNextStatuses_def a includes_set)
  have 2: "\<exists>allowed. VALID_TRANSITIONS from = Some allowed
             \<and> canTransition from to = (to \<in> set allowed)"
    using a by (simp add: canTransition_def includes_set)
  have 3: "canTransition CLOSED to = False"
    by (simp add: canTransition_def)
  have 4: "canTransition SUBMITTED APPROVED = True"
    by (simp add: canTransition_def)
  have 5: "{t. canTransition NEW t} = {PARSING, ASSIGNED, CLOSED}"
    by (auto simp: canTransition_def includes_set)
  from 1 2 3 4 5 show ?thesis
    by (simp add: canTransition_def)
qed

theorem canTransition_allow_list_witness:
  "canTransition SUBMITTED REJECTED = (REJECTED \<in> set (getNextStatuses SUBMITTED))
   \<and> canTransition CLOSED NEW = False
   \<and> {t. canTransition NEW t} = {PARSING, ASSIGNED, CLOSED}"
  using canTransition_allow_list [of SUBMITTED REJECTED]
        canTransition_allow_list [of NEW NEW]
  by simp

section \<open>Properties of the progress ledger\<close>

subsection \<open>The merge loop\<close>

lemma mergeStep_Nil: "mergeStep [] x = [x]"
  by (simp add: mergeStep_def)

lemma mergeStep_Cons:
  "mergeStep (y # ys) x = (if step y = step x then x # ys else y # mergeStep ys x)"
  by (simp add: mergeStep_def split: option.splits)

lemma mergeStep_names:
  "step ` set (mergeStep ms x) = insert (step x) (step ` set ms)"
  by (induction ms) (auto simp: mergeStep_Nil mergeStep_Cons)

lemma mergeStep_absorb:
  "step x = step y \<Longrightarrow> mergeStep (mergeStep ms x) y = mergeStep ms y"
  by (induction ms) (auto simp: mergeStep_Nil mergeStep_Cons)

lemma mergeStep_commute:
  "step x \<noteq> step y \<Longrightarrow> step y \<in> step ` set ms
   \<Longrightarrow> mergeStep (mergeStep ms x) y = mergeStep (mergeStep ms y) x"
  by (induction ms) (auto simp: mergeStep_Nil mergeStep_Cons)

lemma mergeSteps_snoc: "mergeSteps ms (s @ [x]) = mergeStep (mergeSteps ms s) x"
  by (simp add: mergeSteps_def)

lemma mergeSteps_names:
  "step ` set (mergeSteps ms s) = step ` set ms \<union> step ` set s"
  by (induction s rule: rev_induct) (auto simp: mergeSteps_snoc mergeStep_names mergeSteps_def)

lemma mergeSteps_push_through:
  "step ` set s \<subseteq> step ` set m
   \<Longrightarrow> mergeStep (mergeSteps (mergeStep m x) s) x = mergeStep (mergeSteps m s) x"
proof (induction s rule: rev_induct)
  case Nil
  then show ?case by (simp add: mergeSteps_def mergeStep_absorb)
next
  case (snoc y s)
  then have sub: "step ` set s \<subseteq> step ` set m" and yin: "step y \<in> step ` set m"
    by auto
  note IH = snoc.IH [OF sub]
  show ?case
  proof (cases "step y = step x")
    case True
    then show ?thesis
      by (simp add: mergeSteps_snoc mergeStep_absorb IH)
  next
    case False
    have y1: "step y \<in> step ` set (mergeSteps (mergeStep m x) s)"
      using yin by (simp add: mergeSteps_names mergeStep_names)
    have y2: "step y \<in> step ` set (mergeSteps m s)"
      using yin by (simp add: mergeSteps_names)
    have "mergeStep (mergeStep (mergeSteps (mergeStep m x) s) y) x
            = mergeStep (mergeStep (mergeSteps (mergeStep m x) s) x) y"
      using mergeStep_commute [of x y "mergeSteps (mergeStep m x) s"] False y1 by simp
    also have "\<dots> = mergeStep (mergeStep (mergeSteps m s) x) y"
      by (simp add: IH)
    also have "\<dots> = mergeStep (mergeStep (mergeSteps m s) y) x"
      using mergeStep_commute [of x y "mergeSteps m s"] False y2 by simp
    finally show ?thesis
      by (simp add: mergeSteps_snoc)
  qed
qed

lemma mergeSteps_idem: "mergeSteps (mergeSteps e s) s = mergeSteps e s"
proof (induction s rule: rev_induct)
  case Nil
  then show ?case by (simp add: mergeSteps_def)
next
  case (snoc x s)
  have sub: "step ` set s \<subseteq> step ` set (mergeSteps e s)"
    by (simp add: mergeSteps_names)
  have "mergeSteps (mergeSteps e (s @ [x])) (s @ [x])
          = mergeStep (mergeSteps (mergeStep (mergeSteps e s) x) s) x"
    by (simp add: mergeSteps_snoc)
  also have "\<dots> = mergeStep (mergeSteps (mergeSteps e s) s) x"
    by (rule mergeSteps_push_through [OF sub])
  also have "\<dots> = mergeStep (mergeSteps e s) x"
    by (simp add: snoc.IH)
  finally show ?case
    by (simp add: mergeSteps_snoc)
qed

text \<open>The number of entries with a given step name.\<close>

lemma mergeStep_count:
  "length (filter (\<lambda>s. step s = n) (mergeStep ms x))
     = (if n = step x \<and> n \<notin> step ` set ms then 1
        else length (filter (\<lambda>s. step s = n) ms))"
  by (induction ms) (auto simp: mergeStep_Nil mergeStep_Cons)

lemma mergeSteps_count:
  "length (filter (\<lambda>s. step s = n) (mergeSteps ms mine))
     = (if n \<in> step ` set ms then length (filter (\<lambda>s. step s = n) ms)
        else if n \<in> step ` set mine then 1 else 0)"
proof (induction mine rule: rev_induct)
  case Nil
  show ?case
    by (auto simp: mergeSteps_def filter_empty_conv)
next
  case (snoc x mine)
  show ?case
    using snoc.IH
    by (auto simp: mergeSteps_snoc mergeStep_count mergeSteps_names)
qed

lemma mergeStep_distinct:
  "distinct (map step ms) \<Longrightarrow> distinct (map step (mergeStep ms x))"
  by (induction ms) (auto simp: mergeStep_Nil mergeStep_Cons mergeStep_names)

lemma mergeSteps_distinct:
  "distinct (map step ms) \<Longrightarrow> distinct (map step (mergeSteps ms mine))"
  by (induction mine rule: rev_induct) (auto simp: mergeSteps_snoc mergeStep_distinct mergeSteps_def)

lemma mergeStep_find:
  "find (\<lambda>s. step s = n) (mergeStep ms x)
     = (if n = step x then Some x else find (\<lambda>s. step s = n) ms)"
  by (induction ms) (auto simp: mergeStep_Nil mergeStep_Cons)

lemma map_add_twice: "(a ++ b) ++ b = a ++ b"
  by (rule ext) (simp add: map_add_def split: option.splits)

lemma flush_idem:
  "flush (fst (flush lg ps db)) ps (snd (flush lg ps db)) = flush lg ps db"
  by (cases db)
     (auto simp: flush_def Let_def mergeSteps_idem emptyMeta_def map_add_twice split: option.splits)

lemma findIndex_None: "(findIndex P xs = None) = (\<forall>x\<in>set xs. \<not> P x)"
  by (induction xs) auto

lemma findIndex_Some:
  "findIndex P xs = Some i \<Longrightarrow> i < length xs \<and> P (xs ! i) \<and> find P xs = Some (xs ! i)"
  by (induction xs arbitrary: i) (auto split: if_splits)

lemma findIndex_update:
  "findIndex P xs = Some i \<Longrightarrow> P y \<Longrightarrow> find P (xs[i := y]) = Some y"
  by (induction xs arbitrary: i) (auto split: if_splits)

lemma findIndex_append:
  "findIndex P xs = None \<Longrightarrow> P y \<Longrightarrow> find P (xs @ [y]) = Some y"
  by (induction xs) (auto split: if_splits)

lemma findIndex_names:
  "findIndex (\<lambda>s. step s = n) xs = Some i \<Longrightarrow> step y = n \<Longrightarrow> map step (xs[i := y]) = map step xs"
  by (induction xs arbitrary: i) (auto split: if_splits)

lemma steps_addLog [simp]: "steps (addLog lg l s m p t) = steps lg"
  by (simp add: addLog_def)

lemma extras_addLog [simp]: "extras (addLog lg l s m p t) = extras lg"
  by (simp add: addLog_def)

lemma steps_flush [simp]: "steps (fst (flush lg ps db)) = steps lg"
  by (simp add: flush_def Let_def)

lemma extras_flush [simp]: "extras (fst (flush lg ps db)) = extras lg"
  by (simp add: flush_def Let_def)

lemma persistedSteps_flush:
  "persistedSteps (snd (flush lg ps (Some row))) = mergeSteps (persistedSteps (Some row)) (steps lg)"
  by (simp add: flush_def Let_def persistedSteps_def emptyMeta_def split: option.splits)

lemma persistedOther_flush:
  "persistedOther (snd (flush lg ps (Some row))) = persistedOther (Some row) ++ extras lg"
  by (simp add: flush_def Let_def persistedOther_def emptyMeta_def split: option.splits)

lemma flush_None: "snd (flush lg ps None) = None"
  by (simp add: flush_def Let_def)

lemma flush_Some: "\<exists>row'. snd (flush lg ps (Some row)) = Some row'"
  by (simp add: flush_def Let_def)

lemma upsertStep_steps_cong:
  "steps lg = steps lg' \<Longrightarrow> steps (upsertStep lg n st msg now) = steps (upsertStep lg' n st msg now)"
  by (simp add: upsertStep_def Let_def split: option.splits)

lemma upsertStep_distinct:
  "distinct (map step (steps lg)) \<Longrightarrow> distinct (map step (steps (upsertStep lg n st msg now)))"
  by (auto simp: upsertStep_def Let_def findIndex_names findIndex_None split: option.splits)

lemma upsertStep_running:
  assumes "now \<noteq> []"
  shows "\<exists>s. find (\<lambda>x. step x = n) (steps (upsertStep lg n ''running'' msg now)) = Some s
             \<and> started_at s = Some now \<and> status s = ''running'' \<and> step s = n"
  using assms
  by (auto simp: upsertStep_def Let_def truthy_def findIndex_update findIndex_append
           split: option.splits)

lemma upsertStep_keeps:
  assumes "st \<noteq> ''running''" "find (\<lambda>x. step x = n) (steps lg) = Some old"
          "started_at old = Some T1" "T1 \<noteq> []"
  shows "\<exists>s. find (\<lambda>x. step x = n) (steps (upsertStep lg n st msg now)) = Some s
             \<and> started_at s = Some T1 \<and> status s = st \<and> step s = n"
proof (cases "findIndex (\<lambda>s. step s = n) (steps lg)")
  case None
  then have "find (\<lambda>x. step x = n) (steps lg) = None"
    by (simp add: findIndex_None find_None_iff)
  with assms show ?thesis by simp
next
  case (Some i)
  then have "steps lg ! i = old"
    using findIndex_Some [OF Some] assms by simp
  with assms Some show ?thesis
    by (simp add: upsertStep_def Let_def truthy_def findIndex_update)
qed

lemma mergeSteps_find:
  "distinct (map step mine) \<Longrightarrow> x \<in> set mine
   \<Longrightarrow> find (\<lambda>s. step s = step x) (mergeSteps e mine) = Some x"
proof (induction mine rule: rev_induct)
  case Nil
  then show ?case by simp
next
  case (snoc y mine)
  show ?case
  proof (cases "x = y")
    case True
    then show ?thesis by (simp add: mergeSteps_snoc mergeStep_find)
  next
    case False
    with snoc.prems have xin: "x \<in> set mine" and d: "distinct (map step mine)"
      and ny: "step y \<notin> step ` set mine"
      by auto
    from xin ny have ne: "step x \<noteq> step y"
      by (metis imageI)
    from snoc.IH [OF d xin] ne show ?thesis
      by (simp add: mergeSteps_snoc mergeStep_find)
  qed
qed

lemma find_name_mem: "find (\<lambda>x. step x = n) xs = Some s \<Longrightarrow> s \<in> set xs \<and> step s = n"
  by (induction xs) (auto split: if_splits)

lemma steps_upsertStep_addLog [simp]:
  "steps (upsertStep (addLog lg l s m p t) n st msg now) = steps (upsertStep lg n st msg now)"
  by (rule upsertStep_steps_cong) simp

lemma stepStart_steps:
  "steps (fst (stepStart lg n m tLog ts db)) = steps (upsertStep lg n ''running'' (Some m) ts)"
  by (simp add: stepStart_def log_info_def)

lemma stepStart_db: "\<exists>row'. snd (stepStart lg n m tLog ts (Some row)) = Some row'"
  by (simp add: stepStart_def flush_Some)

lemma stepFail_steps:
  "steps (fst (stepFail lg n m p tLog ts db)) = steps (upsertStep lg n ''failed'' (Some m) ts)"
  by (simp add: stepFail_def log_error_def)

lemma stepFail_persisted:
  "persistedSteps (snd (stepFail lg n m p tLog ts (Some row)))
     = mergeSteps (persistedSteps (Some row)) (steps (fst (stepFail lg n m p tLog ts (Some row))))"
  by (simp add: stepFail_def persistedSteps_flush)

lemma stepComplete_steps:
  "\<exists>st msg. (st = ''completed'' \<or> st = ''failed'')
       \<and> steps (fst (stepComplete lg n m v ex tv tLog ts db)) = steps (upsertStep lg n st msg ts)"
proof (cases v)
  case None
  have "steps (fst (stepComplete lg n m v ex tv tLog ts db))
          = steps (upsertStep lg n ''completed'' (Some m) ts)"
    using None by (simp add: stepComplete_def log_info_def)
  then show ?thesis by blast
next
  case (Some ver)
  show ?thesis
  proof (cases "passed ver")
    case True
    have "steps (fst (stepComplete lg n m v ex tv tLog ts db))
            = steps (upsertStep lg n ''completed'' (Some m) ts)"
      using Some True by (simp add: stepComplete_def Let_def log_info_def log_warn_def)
    then show ?thesis by blast
  next
    case False
    have "\<exists>msg. steps (fst (stepComplete lg n m v ex tv tLog ts db))
            = steps (upsertStep lg n ''failed'' msg ts)"
      using Some False
      by (auto simp add: stepComplete_def Let_def stepFail_steps log_info_def log_warn_def)
    then show ?thesis by blast
  qed
qed

lemma stepComplete_persisted:
  "persistedSteps (snd (stepComplete lg n m v ex tv tLog ts (Some row)))
     = mergeSteps (persistedSteps (Some row))
         (steps (fst (stepComplete lg n m v ex tv tLog ts (Some row))))"
  by (simp add: stepComplete_def Let_def stepFail_def persistedSteps_flush split: option.splits)

lemma flush_writes_memory_version:
  assumes "distinct (map step (steps lg))" "s \<in> set (steps lg)"
  shows "find (\<lambda>x. step x = step s) (persistedSteps (snd (flush lg ps (Some row)))) = Some s"
  using assms by (simp add: persistedSteps_flush mergeSteps_find)

lemma start_then_upsert:
  assumes d: "distinct (map step (steps lg))" and t: "tStart \<noteq> []"
    and st: "st \<noteq> ''running''"
    and lgx: "steps lgx = steps (upsertStep (fst (stepStart lg n m tLog tStart db)) n st msg tEnd)"
  shows "distinct (map step (steps lgx))
         \<and> (\<exists>s. find (\<lambda>x. step x = n) (steps lgx) = Some s \<and> s \<in> set (steps lgx) \<and> step s = n
                 \<and> started_at s = Some tStart \<and> status s = st)"
proof -
  define lg1 where "lg1 = fst (stepStart lg n m tLog tStart db)"
  have s1: "steps lg1 = steps (upsertStep lg n ''running'' (Some m) tStart)"
    by (simp add: lg1_def stepStart_steps)
  have d1: "distinct (map step (steps lg1))"
    by (simp add: s1 upsertStep_distinct d)
  obtain old where old: "find (\<lambda>x. step x = n) (steps lg1) = Some old" "started_at old = Some tStart"
    using upsertStep_running [OF t, of n lg "Some m"] s1 by auto
  obtain s where s: "find (\<lambda>x. step x = n) (steps (upsertStep lg1 n st msg tEnd)) = Some s"
      "started_at s = Some tStart" "status s = st" "step s = n"
    using upsertStep_keeps [OF st old t] by blast
  have dx: "distinct (map step (steps lgx))"
    using lgx d1 upsertStep_distinct [of lg1] by (simp add: lg1_def)
  have sx: "s \<in> set (steps lgx)"
    using s(1) lgx find_name_mem [of n "steps lgx" s] by (simp add: lg1_def)
  from dx sx s lgx show ?thesis by (auto simp: lg1_def)
qed

lemma merged_find:
  assumes "distinct (map step mine)" "s \<in> set mine" "step s = n"
  shows "find (\<lambda>x. step x = n) (mergeSteps e mine) = Some s"
  using mergeSteps_find [OF assms(1,2), of e] assms(3) by simp

subsection \<open>Merge idempotency\<close>

text \<open>
  Claim C6. Flushing twice in a row leaves the logger and the row as one flush leaves
  them: the merge of the in-memory steps into the merged steps changes nothing. The
  merge upserts by step name: a name that the persisted collection holds keeps its number
  of entries, a new name gets exactly one entry, so a persisted collection with one entry
  per name is merged into a collection with one entry per name, and no duplicate is ever
  appended. The steps that a flush persists are the merge of the persisted steps with the
  in-memory steps.
\<close>

theorem flush_merge_idempotent:
  "flush (fst (flush lg ps db)) ps (snd (flush lg ps db)) = flush lg ps db
   \<and> mergeSteps (mergeSteps existingSteps mine) mine = mergeSteps existingSteps mine
   \<and> length (filter (\<lambda>s. step s = n) (mergeSteps existingSteps mine))
        = (if n \<in> step ` set existingSteps
           then length (filter (\<lambda>s. step s = n) existingSteps)
           else if n \<in> step ` set mine then 1 else 0)
   \<and> (distinct (map step existingSteps) \<longrightarrow> distinct (map step (mergeSteps existingSteps mine)))
   \<and> persistedSteps (snd (flush lg ps (Some row)))
        = mergeSteps (persistedSteps (Some row)) (steps lg)"
  using flush_idem [of lg ps db] mergeSteps_idem [of existingSteps mine]
        mergeSteps_count [of n existingSteps mine] mergeSteps_distinct [of existingSteps mine]
        persistedSteps_flush [of lg ps row]
  by simp

theorem flush_merge_idempotent_witness:
  "distinct (map step [\<lparr>step = ''ai_parse'', status = ''running'', message = None,
                        started_at = Some ''T1'', completed_at = None, error = None\<rparr>])
   \<and> distinct (map step (mergeSteps
         [\<lparr>step = ''ai_parse'', status = ''running'', message = None,
           started_at = Some ''T1'', completed_at = None, error = None\<rparr>]
         [\<lparr>step = ''ai_parse'', status = ''completed'', message = None,
           started_at = Some ''T1'', completed_at = Some ''T2'', error = None\<rparr>,
          \<lparr>step = ''insert_records'', status = ''running'', message = None,
           started_at = Some ''T3'', completed_at = None, error = None\<rparr>]))
   \<and> mergeSteps
         [\<lparr>step = ''ai_parse'', status = ''running'', message = None,
           started_at = Some ''T1'', completed_at = None, error = None\<rparr>]
         [\<lparr>step = ''ai_parse'', status = ''completed'', message = None,
           started_at = Some ''T1'', completed_at = Some ''T2'', error = None\<rparr>,
          \<lparr>step = ''insert_records'', status = ''running'', message = None,
           started_at = Some ''T3'', completed_at = None, error = None\<rparr>]
       = [\<lparr>step = ''ai_parse'', status = ''completed'', message = None,
           started_at = Some ''T1'', completed_at = Some ''T2'', error = None\<rparr>,
          \<lparr>step = ''insert_records'', status = ''running'', message = None,
           started_at = Some ''T3'', completed_at = None, error = None\<rparr>]"
  using flush_merge_idempotent
          [of "newParseLogger ''v1''" None None
              "[\<lparr>step = ''ai_parse'', status = ''running'', message = None,
                 started_at = Some ''T1'', completed_at = None, error = None\<rparr>]"
              "[\<lparr>step = ''ai_parse'', status = ''completed'', message = None,
                 started_at = Some ''T1'', completed_at = Some ''T2'', error = None\<rparr>,
                \<lparr>step = ''insert_records'', status = ''running'', message = None,
                 started_at = Some ''T3'', completed_at = None, error = None\<rparr>]"
              "''ai_parse''" sampleRow]
  by (simp add: mergeSteps_def mergeStep_def)

subsection \<open>Start timestamps\<close>

text \<open>
  Claim C2, as amended. The start timestamp is kept by the in-memory upsert of the logger,
  not by the merge of \<open>flush\<close>. For a logger whose steps have distinct names and a
  non-empty start timestamp: (1) an upsert with a status other than running keeps the
  \<open>started_at\<close> of the in-memory entry of that step; (2) \<open>flush\<close> persists every in-memory
  step as it is, in place of the persisted entry of the same name; (3) so a step started
  with \<open>stepStart\<close> and then completed or failed through the same logger is persisted with
  the \<open>started_at\<close> of its start.
\<close>

theorem started_at_kept_by_logger:
  assumes "distinct (map step (steps lg))" and "tStart \<noteq> []"
  shows
    "(st \<noteq> ''running'' \<and> find (\<lambda>x. step x = n) (steps lg) = Some old
        \<and> started_at old = Some tStart
      \<longrightarrow> (\<exists>s. find (\<lambda>x. step x = n) (steps (upsertStep lg n st msg now)) = Some s
               \<and> started_at s = Some tStart \<and> status s = st))
     \<and> (\<forall>s\<in>set (steps lg).
           find (\<lambda>x. step x = step s) (persistedSteps (snd (flush lg ps (Some row)))) = Some s)
     \<and> (\<exists>s. find (\<lambda>x. step x = n)
               (persistedSteps
                  (snd (stepComplete (fst (stepStart lg n m tLog tStart (Some row))) n m' v ex
                          tVerify tLog' tEnd (snd (stepStart lg n m tLog tStart (Some row))))))
               = Some s
             \<and> started_at s = Some tStart
             \<and> (status s = ''completed'' \<or> status s = ''failed''))
     \<and> (\<exists>s. find (\<lambda>x. step x = n)
               (persistedSteps
                  (snd (stepFail (fst (stepStart lg n m tLog tStart (Some row))) n m' payload
                          tLog' tEnd (snd (stepStart lg n m tLog tStart (Some row))))))
               = Some s
             \<and> started_at s = Some tStart \<and> status s = ''failed'')"
proof -
  note d = assms(1) and t = assms(2)
  let ?lg1 = "fst (stepStart lg n m tLog tStart (Some row))"
  let ?db1 = "snd (stepStart lg n m tLog tStart (Some row))"
  obtain row1 where r1: "?db1 = Some row1"
    using stepStart_db by blast
  have A: "st \<noteq> ''running'' \<and> find (\<lambda>x. step x = n) (steps lg) = Some old
             \<and> started_at old = Some tStart
           \<longrightarrow> (\<exists>s. find (\<lambda>x. step x = n) (steps (upsertStep lg n st msg now)) = Some s
                    \<and> started_at s = Some tStart \<and> status s = st)"
    using upsertStep_keeps [of st n lg old tStart msg now] t by blast
  have B: "\<forall>s\<in>set (steps lg).
             find (\<lambda>x. step x = step s) (persistedSteps (snd (flush lg ps (Some row)))) = Some s"
    using flush_writes_memory_version [OF d] by blast
  have C: "\<exists>s. find (\<lambda>x. step x = n)
               (persistedSteps (snd (stepComplete ?lg1 n m' v ex tVerify tLog' tEnd ?db1)))
               = Some s
             \<and> started_at s = Some tStart
             \<and> (status s = ''completed'' \<or> status s = ''failed'')"
  proof -
    let ?lg2 = "fst (stepComplete ?lg1 n m' v ex tVerify tLog' tEnd (Some row1))"
    obtain st' msg' where c1: "st' = ''completed'' \<or> st' = ''failed''"
      and c2: "steps ?lg2 = steps (upsertStep ?lg1 n st' msg' tEnd)"
      using stepComplete_steps [of ?lg1 n m' v ex tVerify tLog' tEnd "Some row1"] by blast
    have nr: "st' \<noteq> ''running''"
      using c1 by (rule disjE) simp_all
    note R = start_then_upsert [OF d t nr c2]
    then obtain s where s1: "distinct (map step (steps ?lg2))" and s2: "s \<in> set (steps ?lg2)"
      and s3: "step s = n" and s4: "started_at s = Some tStart" and s5: "status s = st'"
      by blast
    have p: "persistedSteps (snd (stepComplete ?lg1 n m' v ex tVerify tLog' tEnd (Some row1)))
               = mergeSteps (persistedSteps (Some row1)) (steps ?lg2)"
      by (rule stepComplete_persisted)
    have "find (\<lambda>x. step x = n)
            (persistedSteps (snd (stepComplete ?lg1 n m' v ex tVerify tLog' tEnd (Some row1)))) = Some s"
      unfolding p by (rule merged_find [OF s1 s2 s3])
    with s4 s5 c1 r1 show ?thesis by metis
  qed
  have D: "\<exists>s. find (\<lambda>x. step x = n)
               (persistedSteps (snd (stepFail ?lg1 n m' payload tLog' tEnd ?db1))) = Some s
             \<and> started_at s = Some tStart \<and> status s = ''failed''"
  proof -
    let ?lg2 = "fst (stepFail ?lg1 n m' payload tLog' tEnd (Some row1))"
    have nr: "''failed'' \<noteq> ''running''" by simp
    have e: "steps ?lg2 = steps (upsertStep ?lg1 n ''failed'' (Some m') tEnd)"
      by (rule stepFail_steps)
    note R = start_then_upsert [OF d t nr e]
    then obtain s where s1: "distinct (map step (steps ?lg2))" and s2: "s \<in> set (steps ?lg2)"
      and s3: "step s = n" and s4: "started_at s = Some tStart" and s5: "status s = ''failed''"
      by blast
    have p: "persistedSteps (snd (stepFail ?lg1 n m' payload tLog' tEnd (Some row1)))
               = mergeSteps (persistedSteps (Some row1)) (steps ?lg2)"
      by (rule stepFail_persisted)
    have "find (\<lambda>x. step x = n)
            (persistedSteps (snd (stepFail ?lg1 n m' payload tLog' tEnd (Some row1)))) = Some s"
      unfolding p by (rule merged_find [OF s1 s2 s3])
    with s4 s5 r1 show ?thesis by metis
  qed
  show ?thesis
    by (rule conjI [OF A], rule conjI [OF B], rule conjI [OF C], rule D)
qed

theorem started_at_kept_by_logger_witness:
  "distinct (map step (steps (newParseLogger ''v1''))) \<and> ''T1'' \<noteq> []
   \<and> (\<exists>s. find (\<lambda>x. step x = ''ai_parse'')
             (persistedSteps
                (snd (stepFail (fst (stepStart (newParseLogger ''v1'') ''ai_parse'' ''m'' ''T0'' ''T1''
                                       (Some sampleRow)))
                        ''ai_parse'' ''boom'' None ''T2'' ''T3''
                        (snd (stepStart (newParseLogger ''v1'') ''ai_parse'' ''m'' ''T0'' ''T1''
                                (Some sampleRow))))))
             = Some s
           \<and> started_at s = Some ''T1'' \<and> status s = ''failed'')"
proof -
  have h1: "distinct (map step (steps (newParseLogger ''v1'')))"
    by (simp add: newParseLogger_def)
  have h2: "''T1'' \<noteq> []" by simp
  note D = started_at_kept_by_logger [OF h1 h2, THEN conjunct2, THEN conjunct2, THEN conjunct2]
  show ?thesis
    by (intro conjI h1 h2 D)
qed

text \<open>
  The merge of \<open>flush\<close> itself does not look at the persisted \<open>started_at\<close>: a logger
  that completes a step it did not start replaces a persisted entry that carries
  \<open>started_at = T1\<close> by an entry without \<open>started_at\<close>, and a logger that starts the step
  again overwrites \<open>T1\<close> by the new start.
\<close>

theorem flush_merge_loses_persisted_started_at:
  "map started_at
     (persistedSteps
        (snd (stepComplete (newParseLogger ''v1'') ''ai_parse'' ''done'' None None ''T2'' ''T2'' ''T2''
                (Some \<lparr>parse_status = ''processing'',
                       parse_metadata =
                         Some \<lparr>meta_steps =
                                 Some [\<lparr>step = ''ai_parse'', status = ''running'', message = None,
                                        started_at = Some ''T1'', completed_at = None,
                                        error = None\<rparr>],
                               meta_logs = None, meta_other = Map.empty\<rparr>\<rparr>))))
     = [None]
   \<and> map started_at
     (persistedSteps
        (snd (stepStart (newParseLogger ''v1'') ''ai_parse'' ''again'' ''T2'' ''T2''
                (Some \<lparr>parse_status = ''failed'',
                       parse_metadata =
                         Some \<lparr>meta_steps =
                                 Some [\<lparr>step = ''ai_parse'', status = ''failed'', message = None,
                                        started_at = Some ''T1'', completed_at = Some ''T1b'',
                                        error = None\<rparr>],
                               meta_logs = None, meta_other = Map.empty\<rparr>\<rparr>))))
     = [Some ''T2'']"
  by (simp add: stepComplete_def stepStart_def flush_def Let_def
        persistedSteps_def newParseLogger_def upsertStep_def log_info_def addLog_def
        mergeSteps_def mergeStep_def)

subsection \<open>Status derivation\<close>

lemma distinct_names:
  "distinct (map step ss) \<Longrightarrow> x \<in> set ss \<Longrightarrow> y \<in> set ss \<Longrightarrow> step x = step y \<Longrightarrow> x = y"
  by (auto simp: distinct_map inj_on_def)

lemma known_nonempty: "set ParseStepName \<noteq> {}"
  by (simp add: ParseStepName_def)

lemma allComplete_known:
  assumes "oneEntryPerKnownStep ss"
  shows "(length ss > 0 \<and> list_all (\<lambda>s. status s = ''completed'') ss) = spec_allFiveCompleted ss"
proof
  assume a: "length ss > 0 \<and> list_all (\<lambda>s. status s = ''completed'') ss"
  show "spec_allFiveCompleted ss"
    unfolding spec_allFiveCompleted_def list_all_iff list_ex_iff
  proof
    fix n assume "n \<in> set ParseStepName"
    then have "n \<in> set (map step ss)"
      using assms by (simp add: oneEntryPerKnownStep_def)
    then obtain s where s: "s \<in> set ss" "step s = n"
      by auto
    with a have "status s = ''completed''"
      by (simp add: list_all_iff)
    with s show "\<exists>s\<in>set ss. step s = n \<and> status s = ''completed''"
      by (intro bexI [of _ s] conjI)
  qed
next
  assume a: "spec_allFiveCompleted ss"
  have d: "distinct (map step ss)" and n: "set (map step ss) = set ParseStepName"
    using assms by (simp_all add: oneEntryPerKnownStep_def)
  have "ss \<noteq> []"
    using n known_nonempty by auto
  moreover have "\<forall>s\<in>set ss. status s = ''completed''"
  proof
    fix s assume s: "s \<in> set ss"
    then have "step s \<in> set ParseStepName"
      using n by auto
    with a obtain s' where s': "s' \<in> set ss" "step s' = step s" "status s' = ''completed''"
      unfolding spec_allFiveCompleted_def list_all_iff list_ex_iff by blast
    have "s' = s"
      using d s'(1) s s'(2) by (rule distinct_names)
    with s'(3) show "status s = ''completed''"
      by simp
  qed
  ultimately show "length ss > 0 \<and> list_all (\<lambda>s. status s = ''completed'') ss"
    by (simp add: list_all_iff)
qed

lemma deriveParseStatus_known:
  assumes "oneEntryPerKnownStep ss"
  shows "deriveParseStatus ss
           = (if \<exists>s\<in>set ss. status s = ''failed'' then Some ''failed''
              else if spec_allFiveCompleted ss then Some ''completed''
              else if \<exists>s\<in>set ss. status s = ''running'' then Some ''processing''
              else None)"
  using allComplete_known [OF assms]
  by (simp add: deriveParseStatus_def Let_def list_ex_iff)

lemma mergeSteps_known:
  assumes "oneEntryPerKnownStep ss" and "set (map step mine) \<subseteq> set ParseStepName"
  shows "oneEntryPerKnownStep (mergeSteps ss mine)"
proof -
  have d: "distinct (map step ss)" and n: "step ` set ss = set ParseStepName"
    using assms(1) by (simp_all add: oneEntryPerKnownStep_def)
  have "step ` set (mergeSteps ss mine) = set ParseStepName"
    using n assms(2) by (auto simp: mergeSteps_names)
  with mergeSteps_distinct [OF d, of mine] show ?thesis
    by (simp add: oneEntryPerKnownStep_def)
qed

lemma flush_status:
  "\<not> truthy forced
   \<Longrightarrow> \<exists>row'. snd (flush lg forced (Some row)) = Some row'
          \<and> parse_status row'
              = (case deriveParseStatus (mergeSteps (persistedSteps (Some row)) (steps lg)) of
                   None \<Rightarrow> parse_status row
                 | Some st \<Rightarrow> st)"
  by (simp add: flush_def Let_def persistedSteps_def emptyMeta_def split: option.splits)

lemma insertedViolation_known: "oneEntryPerKnownStep (persistedSteps (Some insertedViolation))"
  by (simp add: oneEntryPerKnownStep_def persistedSteps_def insertedViolation_def pendingStep_def
        ParseStepName_def)

lemma initStep_steps: "persistedSteps (initStep db) = persistedSteps db"
  by (cases db) (simp_all add: initStep_def persistedSteps_def)

text \<open>
  Claim C1. The row that a parse run works on holds, from its insertion, one entry for
  each of the five known step names, and the logger records steps under these names only;
  every flush keeps that shape. On such a row a flush that is given no status to force
  writes the merge of the persisted and the in-memory steps, and a status that depends on
  the merged steps alone: \<open>failed\<close> if a merged step is failed; otherwise \<open>completed\<close> if
  and only if each of the five known step names has a completed entry; otherwise
  \<open>processing\<close> if a merged step is running; otherwise the status that the row had.
\<close>

theorem parse_status_from_merged_steps:
  assumes "oneEntryPerKnownStep (persistedSteps (Some row))"
    and "set (map step (steps lg)) \<subseteq> set ParseStepName"
    and "\<not> truthy forced"
  shows "(\<exists>row'. snd (flush lg forced (Some row)) = Some row'
           \<and> persistedSteps (Some row') = mergeSteps (persistedSteps (Some row)) (steps lg)
           \<and> oneEntryPerKnownStep (persistedSteps (Some row'))
           \<and> parse_status row'
               = (if \<exists>s\<in>set (persistedSteps (Some row')). status s = ''failed'' then ''failed''
                  else if spec_allFiveCompleted (persistedSteps (Some row')) then ''completed''
                  else if \<exists>s\<in>set (persistedSteps (Some row')). status s = ''running''
                       then ''processing''
                  else parse_status row))
         \<and> oneEntryPerKnownStep (persistedSteps (Some insertedViolation))
         \<and> persistedSteps (initStep (Some insertedViolation))
             = persistedSteps (Some insertedViolation)"
proof -
  let ?m = "mergeSteps (persistedSteps (Some row)) (steps lg)"
  obtain row' where r: "snd (flush lg forced (Some row)) = Some row'"
    and st: "parse_status row'
              = (case deriveParseStatus ?m of None \<Rightarrow> parse_status row | Some st \<Rightarrow> st)"
    using flush_status [OF assms(3), of lg row] by (elim exE conjE)
  have p: "persistedSteps (Some row') = ?m"
    using persistedSteps_flush [of lg forced row] by (simp only: r)
  have k: "oneEntryPerKnownStep ?m"
    using assms(1,2) by (rule mergeSteps_known)
  have d: "parse_status row'
               = (if \<exists>s\<in>set ?m. status s = ''failed'' then ''failed''
                  else if spec_allFiveCompleted ?m then ''completed''
                  else if \<exists>s\<in>set ?m. status s = ''running'' then ''processing''
                  else parse_status row)"
    by (simp only: st deriveParseStatus_known [OF k]) simp
  have e: "\<exists>row'. snd (flush lg forced (Some row)) = Some row'
           \<and> persistedSteps (Some row') = mergeSteps (persistedSteps (Some row)) (steps lg)
           \<and> oneEntryPerKnownStep (persistedSteps (Some row'))
           \<and> parse_status row'
               = (if \<exists>s\<in>set (persistedSteps (Some row')). status s = ''failed'' then ''failed''
                  else if spec_allFiveCompleted (persistedSteps (Some row')) then ''completed''
                  else if \<exists>s\<in>set (persistedSteps (Some row')). status s = ''running''
                       then ''processing''
                  else parse_status row)"
  proof (intro exI [of _ row'] conjI)
    show "snd (flush lg forced (Some row)) = Some row'" by (rule r)
    show "persistedSteps (Some row') = ?m" by (rule p)
    show "oneEntryPerKnownStep (persistedSteps (Some row'))" by (simp only: p k)
    show "parse_status row'
               = (if \<exists>s\<in>set (persistedSteps (Some row')). status s = ''failed'' then ''failed''
                  else if spec_allFiveCompleted (persistedSteps (Some row')) then ''completed''
                  else if \<exists>s\<in>set (persistedSteps (Some row')). status s = ''running''
                       then ''processing''
                  else parse_status row)"
      by (simp only: p d)
  qed
  show ?thesis
    by (intro conjI e insertedViolation_known initStep_steps)
qed

lemma sampleLogger_one:
  "steps (sampleLogger [''ai_parse''])
     = [\<lparr>step = ''ai_parse'', status = ''completed'', message = Some ''done'',
         started_at = Some ''T0'', completed_at = Some ''T1'', error = None\<rparr>]"
  by (simp add: sampleLogger_def newParseLogger_def upsertStep_def Let_def truthy_def)

lemma sampleLogger_all:
  "steps (sampleLogger ParseStepName)
     = map (\<lambda>n. \<lparr>step = n, status = ''completed'', message = Some ''done'',
                  started_at = Some ''T0'', completed_at = Some ''T1'', error = None\<rparr>)
         ParseStepName"
  by (simp add: sampleLogger_def newParseLogger_def upsertStep_def Let_def truthy_def
        ParseStepName_def)

lemma processingRow_steps:
  "persistedSteps (Some (insertedViolation\<lparr>parse_status := ''processing''\<rparr>))
     = map pendingStep ParseStepName"
  by (simp add: persistedSteps_def insertedViolation_def ParseStepName_def)

lemma merged_one:
  "mergeSteps (map pendingStep ParseStepName) (steps (sampleLogger [''ai_parse'']))
     = \<lparr>step = ''ai_parse'', status = ''completed'', message = Some ''done'',
        started_at = Some ''T0'', completed_at = Some ''T1'', error = None\<rparr>
       # map pendingStep [''insert_records'', ''analyze_pages'', ''match_photos'', ''complete'']"
  by (simp add: sampleLogger_one ParseStepName_def pendingStep_def mergeSteps_def mergeStep_def)

lemma merged_all:
  "mergeSteps (map pendingStep ParseStepName) (steps (sampleLogger ParseStepName))
     = map (\<lambda>n. \<lparr>step = n, status = ''completed'', message = Some ''done'',
                  started_at = Some ''T0'', completed_at = Some ''T1'', error = None\<rparr>)
         ParseStepName"
  by (simp only: sampleLogger_all)
     (simp add: ParseStepName_def pendingStep_def mergeSteps_def mergeStep_def)

theorem parse_status_from_merged_steps_witness:
  "initStep (Some insertedViolation) = Some (insertedViolation\<lparr>parse_status := ''processing''\<rparr>)
   \<and> oneEntryPerKnownStep
       (persistedSteps (Some (insertedViolation\<lparr>parse_status := ''processing''\<rparr>)))
   \<and> set (map step (steps (sampleLogger [''ai_parse'']))) \<subseteq> set ParseStepName
   \<and> set (map step (steps (sampleLogger ParseStepName))) \<subseteq> set ParseStepName
   \<and> \<not> truthy None
   \<and> (\<exists>row'. snd (flush (sampleLogger [''ai_parse'']) None
                     (Some (insertedViolation\<lparr>parse_status := ''processing''\<rparr>))) = Some row'
          \<and> map status (persistedSteps (Some row'))
              = [''completed'', ''pending'', ''pending'', ''pending'', ''pending'']
          \<and> parse_status row' = ''processing'')
   \<and> (\<exists>row'. snd (flush (sampleLogger ParseStepName) None
                     (Some (insertedViolation\<lparr>parse_status := ''processing''\<rparr>))) = Some row'
          \<and> map status (persistedSteps (Some row'))
              = [''completed'', ''completed'', ''completed'', ''completed'', ''completed'']
          \<and> parse_status row' = ''completed'')"
proof -
  let ?row = "insertedViolation\<lparr>parse_status := ''processing''\<rparr>"
  have i: "initStep (Some insertedViolation) = Some ?row"
    by (simp add: initStep_def)
  have h1: "oneEntryPerKnownStep (persistedSteps (Some ?row))"
    by (simp add: processingRow_steps oneEntryPerKnownStep_def comp_def pendingStep_def
          ParseStepName_def)
  have h2: "set (map step (steps (sampleLogger [''ai_parse'']))) \<subseteq> set ParseStepName"
    by (simp add: sampleLogger_one ParseStepName_def)
  have h2': "set (map step (steps (sampleLogger ParseStepName))) \<subseteq> set ParseStepName"
    by (simp only: sampleLogger_all) (simp add: comp_def)
  have h3: "\<not> truthy None"
    by (simp add: truthy_def)
  note T1 = parse_status_from_merged_steps [OF h1 h2 h3, THEN conjunct1]
  note T5 = parse_status_from_merged_steps [OF h1 h2' h3, THEN conjunct1]
  obtain row1 where r1: "snd (flush (sampleLogger [''ai_parse'']) None (Some ?row)) = Some row1"
    and p1: "persistedSteps (Some row1)
               = mergeSteps (persistedSteps (Some ?row)) (steps (sampleLogger [''ai_parse'']))"
    and s1: "parse_status row1
               = (if \<exists>s\<in>set (persistedSteps (Some row1)). status s = ''failed'' then ''failed''
                  else if spec_allFiveCompleted (persistedSteps (Some row1)) then ''completed''
                  else if \<exists>s\<in>set (persistedSteps (Some row1)). status s = ''running''
                       then ''processing''
                  else parse_status ?row)"
    using T1 by (elim exE conjE)
  have q1: "persistedSteps (Some row1)
              = \<lparr>step = ''ai_parse'', status = ''completed'', message = Some ''done'',
                 started_at = Some ''T0'', completed_at = Some ''T1'', error = None\<rparr>
                # map pendingStep [''insert_records'', ''analyze_pages'', ''match_photos'', ''complete'']"
    by (simp only: p1 processingRow_steps merged_one)
  have st1: "map status (persistedSteps (Some row1))
               = [''completed'', ''pending'', ''pending'', ''pending'', ''pending'']"
    by (simp add: q1 pendingStep_def)
  have a1: "parse_status row1 = ''processing''"
    by (simp add: s1 q1 pendingStep_def spec_allFiveCompleted_def ParseStepName_def)
  have c1: "\<exists>row'. snd (flush (sampleLogger [''ai_parse'']) None (Some ?row)) = Some row'
          \<and> map status (persistedSteps (Some row'))
              = [''completed'', ''pending'', ''pending'', ''pending'', ''pending'']
          \<and> parse_status row' = ''processing''"
    using r1 st1 a1 by (intro exI [of _ row1] conjI)
  obtain row5 where r5: "snd (flush (sampleLogger ParseStepName) None (Some ?row)) = Some row5"
    and p5: "persistedSteps (Some row5)
               = mergeSteps (persistedSteps (Some ?row)) (steps (sampleLogger ParseStepName))"
    and s5: "parse_status row5
               = (if \<exists>s\<in>set (persistedSteps (Some row5)). status s = ''failed'' then ''failed''
                  else if spec_allFiveCompleted (persistedSteps (Some row5)) then ''completed''
                  else if \<exists>s\<in>set (persistedSteps (Some row5)). status s = ''running''
                       then ''processing''
                  else parse_status ?row)"
    using T5 by (elim exE conjE)
  have q5: "persistedSteps (Some row5)
              = map (\<lambda>n. \<lparr>step = n, status = ''completed'', message = Some ''done'',
                           started_at = Some ''T0'', completed_at = Some ''T1'', error = None\<rparr>)
                  ParseStepName"
    by (simp only: p5 processingRow_steps merged_all)
  have st5: "map status (persistedSteps (Some row5))
               = [''completed'', ''completed'', ''completed'', ''completed'', ''completed'']"
    by (simp add: q5 ParseStepName_def)
  have a5: "parse_status row5 = ''completed''"
    by (simp add: s5 q5 spec_allFiveCompleted_def ParseStepName_def)
  have c5: "\<exists>row'. snd (flush (sampleLogger ParseStepName) None (Some ?row)) = Some row'
          \<and> map status (persistedSteps (Some row'))
              = [''completed'', ''completed'', ''completed'', ''completed'', ''completed'']
          \<and> parse_status row' = ''completed''"
    using r5 st5 a5 by (intro exI [of _ row5] conjI)
  show ?thesis
    by (intro conjI i h1 h2 h2' h3 c1 c5)
qed

section \<open>Properties of the photo matcher\<close>

subsection \<open>Lower case and white space\<close>

lemma lowerChar_idem: "lowerChar (lowerChar c) = lowerChar c"
proof (cases c)
  case (Char b0 b1 b2 b3 b4 b5 b6 b7)
  then show ?thesis
    by (cases b0; cases b1; cases b2; cases b3; cases b4; cases b5; cases b6; cases b7;
        simp add: isUpperCase_def)
qed

lemma lowerChar_not_upper: "\<not> isUpperCase (lowerChar c)"
proof (cases c)
  case (Char b0 b1 b2 b3 b4 b5 b6 b7)
  then show ?thesis
    by (cases b0; cases b1; cases b2; cases b3; cases b4; cases b5; cases b6; cases b7;
        simp add: isUpperCase_def)
qed

lemma lowerChar_ws: "isWhiteSpace (lowerChar c) = isWhiteSpace c"
proof (cases c)
  case (Char b0 b1 b2 b3 b4 b5 b6 b7)
  then show ?thesis
    by (cases b0; cases b1; cases b2; cases b3; cases b4; cases b5; cases b6; cases b7;
        simp add: isUpperCase_def isWhiteSpace_def)
qed

lemma lowerChar_space: "(lowerChar c = CHR '' '') = (c = CHR '' '')"
proof (cases c)
  case (Char b0 b1 b2 b3 b4 b5 b6 b7)
  then show ?thesis
    by (cases b0; cases b1; cases b2; cases b3; cases b4; cases b5; cases b6; cases b7;
        simp add: isUpperCase_def)
qed

lemma lowerChar_adds_32:
  assumes "isUpperCase c"
  shows "(of_char (lowerChar c) :: nat) = of_char c + 32"
proof (cases c)
  case (Char b0 b1 b2 b3 b4 b5 b6 b7)
  with assms show ?thesis
    by (cases b0; cases b1; cases b2; cases b3; cases b4; cases b5; cases b6; cases b7;
        simp add: isUpperCase_def)
qed

lemma toLowerCase_idem: "toLowerCase (toLowerCase s) = toLowerCase s"
  by (simp add: toLowerCase_def lowerChar_idem)

lemma space_ws: "isWhiteSpace (CHR '' '')"
  by (simp add: isWhiteSpace_def)

lemma replace_head:
  "xs = [] \<or> \<not> isWhiteSpace (hd xs)
   \<Longrightarrow> replaceWhiteSpaceRuns xs = [] \<or> \<not> isWhiteSpace (hd (replaceWhiteSpaceRuns xs))"
  by (cases xs) auto

lemma dropWhile_head: "dropWhile P xs = [] \<or> \<not> P (hd (dropWhile P xs))"
  by (induction xs) auto

lemma singleSpaced_Cons:
  "singleSpaced (c # ys)
     = ((isWhiteSpace c \<longrightarrow> c = CHR '' '' \<and> (ys = [] \<or> \<not> isWhiteSpace (hd ys))) \<and> singleSpaced ys)"
  by (cases ys) auto

lemma singleSpaced_replace: "singleSpaced (replaceWhiteSpaceRuns s)"
proof (induction s rule: replaceWhiteSpaceRuns.induct)
  case 1
  show ?case by simp
next
  case (2 c cs)
  show ?case
  proof (cases "isWhiteSpace c")
    case True
    then show ?thesis
      using 2 replace_head [OF dropWhile_head [of isWhiteSpace cs]]
      by (simp add: singleSpaced_Cons)
  next
    case False
    then show ?thesis
      using 2 by (simp add: singleSpaced_Cons)
  qed
qed

lemma replace_fixed: "singleSpaced s \<Longrightarrow> replaceWhiteSpaceRuns s = s"
proof (induction s rule: replaceWhiteSpaceRuns.induct)
  case 1
  show ?case by simp
next
  case (2 c cs)
  from "2.prems" have tl: "singleSpaced cs"
    by (simp add: singleSpaced_Cons)
  show ?case
  proof (cases "isWhiteSpace c")
    case True
    with "2.prems" have c: "c = CHR '' ''" and h: "cs = [] \<or> \<not> isWhiteSpace (hd cs)"
      by (simp_all add: singleSpaced_Cons)
    from h have d: "dropWhile isWhiteSpace cs = cs"
      by (cases cs) auto
    from "2.IH"(1) [OF True] tl d True c show ?thesis by simp
  next
    case False
    with "2.IH"(2) tl show ?thesis by simp
  qed
qed

lemma singleSpaced_prefix: "singleSpaced (p @ w) \<Longrightarrow> singleSpaced p"
proof (induction p)
  case Nil
  show ?case by simp
next
  case (Cons c p)
  then show ?case
    by (cases p) (auto simp: singleSpaced_Cons)
qed

lemma singleSpaced_dropWhile: "singleSpaced s \<Longrightarrow> singleSpaced (dropWhile P s)"
  by (induction s) (auto simp: singleSpaced_Cons)

lemma rev_dropWhile_rev_prefix:
  "rev (dropWhile P (rev t)) @ rev (takeWhile P (rev t)) = t"
proof -
  have "rev (takeWhile P (rev t) @ dropWhile P (rev t)) = t"
    by simp
  then show ?thesis by (simp only: rev_append)
qed

lemma singleSpaced_trim: "singleSpaced s \<Longrightarrow> singleSpaced (trim s)"
proof -
  assume a: "singleSpaced s"
  let ?t = "dropWhile isWhiteSpace s"
  have "singleSpaced ?t" using a by (rule singleSpaced_dropWhile)
  then have "singleSpaced (rev (dropWhile isWhiteSpace (rev ?t)) @ rev (takeWhile isWhiteSpace (rev ?t)))"
    by (simp only: rev_dropWhile_rev_prefix)
  then show ?thesis
    unfolding trim_def by (rule singleSpaced_prefix)
qed

lemma singleSpaced_lower: "singleSpaced s \<Longrightarrow> singleSpaced (toLowerCase s)"
  by (induction s rule: singleSpaced.induct)
     (auto simp: toLowerCase_def lowerChar_ws lowerChar_space)

lemma singleSpaced_set: "singleSpaced s \<Longrightarrow> ch \<in> set s \<Longrightarrow> isWhiteSpace ch \<Longrightarrow> ch = CHR '' ''"
  by (induction s rule: singleSpaced.induct) auto

lemma singleSpaced_adjacent:
  "singleSpaced s \<Longrightarrow> Suc i < length s \<Longrightarrow> \<not> (isWhiteSpace (s ! i) \<and> isWhiteSpace (s ! Suc i))"
proof (induction s arbitrary: i rule: singleSpaced.induct)
  case 1
  then show ?case by simp
next
  case (2 c)
  then show ?case by simp
next
  case (3 c d cs)
  show ?case
  proof (cases i)
    case 0
    with "3.prems" show ?thesis by auto
  next
    case (Suc k)
    with "3.prems" "3.IH" [of k] show ?thesis by auto
  qed
qed

text \<open>The ends of a trimmed string.\<close>

lemma trim_ends:
  "trim s \<noteq> [] \<Longrightarrow> \<not> isWhiteSpace (hd (trim s)) \<and> \<not> isWhiteSpace (last (trim s))"
proof -
  assume ne: "trim s \<noteq> []"
  let ?t = "dropWhile isWhiteSpace s"
  let ?u = "dropWhile isWhiteSpace (rev ?t)"
  from ne have une: "?u \<noteq> []" by (simp add: trim_def)
  from une dropWhile_head [of isWhiteSpace "rev ?t"] have l: "\<not> isWhiteSpace (hd ?u)"
    by blast
  have last_eq: "last (trim s) = hd ?u"
    using une by (simp only: trim_def last_rev)
  from une have tne: "?t \<noteq> []"
    by (metis dropWhile.simps(1) rev.simps(1))
  from tne dropWhile_head [of isWhiteSpace s] have ht: "\<not> isWhiteSpace (hd ?t)"
    by blast
  from tne have lr: "last (rev ?t) = hd ?t"
    by (simp only: last_rev)
  from tne have mem: "last (rev ?t) \<in> set (rev ?t)"
    by (intro last_in_set) simp
  have "last ?u = last (rev ?t)"
    using mem ht lr by (intro dropWhile_last) simp_all
  then have "hd (trim s) = hd ?t"
    using une lr by (simp only: trim_def hd_rev)
  with ht l last_eq show ?thesis by simp
qed

lemma trim_fixed:
  "s = [] \<or> (\<not> isWhiteSpace (hd s) \<and> \<not> isWhiteSpace (last s)) \<Longrightarrow> trim s = s"
proof (cases "s = []")
  case True
  then show ?thesis by (simp add: trim_def)
next
  case False
  assume "s = [] \<or> (\<not> isWhiteSpace (hd s) \<and> \<not> isWhiteSpace (last s))"
  with False have h: "\<not> isWhiteSpace (hd s)" and l: "\<not> isWhiteSpace (last s)" by auto
  from h have 1: "dropWhile isWhiteSpace s = s"
    by (simp add: dropWhile_eq_self_iff)
  from l False have 2: "dropWhile isWhiteSpace (rev s) = rev s"
    by (simp add: dropWhile_eq_self_iff hd_rev)
  from 1 2 show ?thesis by (simp add: trim_def)
qed

lemma lower_ends:
  "s \<noteq> [] \<Longrightarrow> hd (toLowerCase s) = lowerChar (hd s) \<and> last (toLowerCase s) = lowerChar (last s)"
  by (simp add: toLowerCase_def hd_map last_map)

lemma filter_replace:
  "filter (\<lambda>ch. \<not> isWhiteSpace ch) (replaceWhiteSpaceRuns s) = filter (\<lambda>ch. \<not> isWhiteSpace ch) s"
proof (induction s rule: replaceWhiteSpaceRuns.induct)
  case 1
  show ?case by simp
next
  case (2 c cs)
  have d: "filter (\<lambda>ch. \<not> isWhiteSpace ch) (dropWhile isWhiteSpace cs)
             = filter (\<lambda>ch. \<not> isWhiteSpace ch) cs"
    by (induction cs) auto
  show ?case
    using 2 d by (simp add: space_ws)
qed

lemma filter_dropWhile_ws:
  "filter (\<lambda>ch. \<not> isWhiteSpace ch) (dropWhile isWhiteSpace cs) = filter (\<lambda>ch. \<not> isWhiteSpace ch) cs"
  by (induction cs) auto

lemma filter_trim:
  "filter (\<lambda>ch. \<not> isWhiteSpace ch) (trim s) = filter (\<lambda>ch. \<not> isWhiteSpace ch) s"
  by (simp add: trim_def rev_filter [symmetric] filter_dropWhile_ws)

lemma filter_lower:
  "filter (\<lambda>ch. \<not> isWhiteSpace ch) (toLowerCase s) = toLowerCase (filter (\<lambda>ch. \<not> isWhiteSpace ch) s)"
  by (induction s) (auto simp: toLowerCase_def lowerChar_ws)

lemma normalizeCode_singleSpaced: "singleSpaced (normalizeCode c)"
  by (simp add: normalizeCode_def singleSpaced_lower singleSpaced_trim singleSpaced_replace)

lemma normalizeCode_ends:
  "normalizeCode c \<noteq> []
   \<Longrightarrow> \<not> isWhiteSpace (hd (normalizeCode c)) \<and> \<not> isWhiteSpace (last (normalizeCode c))"
proof -
  assume "normalizeCode c \<noteq> []"
  then have ne: "trim (replaceWhiteSpaceRuns c) \<noteq> []"
    by (simp add: normalizeCode_def toLowerCase_def)
  from trim_ends [OF ne] lower_ends [OF ne] show ?thesis
    by (simp add: normalizeCode_def lowerChar_ws)
qed

lemma normalizeCode_idem: "normalizeCode (normalizeCode c) = normalizeCode c"
proof -
  let ?n = "normalizeCode c"
  have 1: "replaceWhiteSpaceRuns ?n = ?n"
    by (rule replace_fixed [OF normalizeCode_singleSpaced])
  have 2: "trim ?n = ?n"
    using normalizeCode_ends [of c] by (intro trim_fixed) auto
  have 3: "toLowerCase ?n = ?n"
    by (simp add: normalizeCode_def toLowerCase_idem)
  show ?thesis
    using 1 2 3 by (simp add: normalizeCode_def [of ?n])
qed

lemma normalizeCode_content:
  "filter (\<lambda>ch. \<not> isWhiteSpace ch) (normalizeCode c)
     = toLowerCase (filter (\<lambda>ch. \<not> isWhiteSpace ch) c)"
  by (simp add: normalizeCode_def filter_lower filter_trim filter_replace)

lemma normalizeCode_no_upper: "ch \<in> set (normalizeCode c) \<Longrightarrow> \<not> isUpperCase ch"
  by (auto simp: normalizeCode_def toLowerCase_def lowerChar_not_upper)

lemma normalize_regular: "normalizeCode itemCodeRegular = pageCodeLower"
  by code_simp

lemma normalize_irregular:
  "normalizeCode itemCodeIrregular = ''12-g dcmr '' @ [section_sign] @ ''309.1''"
  by code_simp

lemma irregular_differs: "normalizeCode itemCodeIrregular \<noteq> pageCodeLower"
  by (simp add: normalize_irregular pageCodeLower_def)

lemma page_nonempty: "pageCodeLower \<noteq> [] \<and> Suc 9 < length pageCodeLower \<and> CHR '' '' \<in> set pageCodeLower"
  by (simp add: pageCodeLower_def)

lemma codes_nonempty: "itemCodeRegular \<noteq> [] \<and> itemCodeIrregular \<noteq> [] \<and> itemCodeSpaced \<noteq> []"
  by (simp add: itemCodeRegular_def itemCodeIrregular_def itemCodeSpaced_def)

lemma normalize_page: "normalizeCode pageCodeLower = pageCodeLower"
  by code_simp

lemma normalize_spaced: "normalizeCode itemCodeSpaced = pageCodeLower"
  by code_simp

lemma normalize_blank: "normalizeCode '' '' = []"
  by code_simp

lemma codeMatches_iff:
  "codeMatches pcode item
     = (\<exists>ic. item_violation_code item = Some ic \<and> ic \<noteq> []
             \<and> normalizeCode ic = normalizeCode pcode)"
  by (auto simp: codeMatches_def truthy_def split: option.splits)

lemma find_first:
  "(find P xs = Some x) = (\<exists>i<length xs. xs ! i = x \<and> P x \<and> (\<forall>j<i. \<not> P (xs ! j)))"
  by (auto simp: find_Some_iff)

subsection \<open>Photo matching rule\<close>

text \<open>
  Claim C4, as amended. \<open>normalizeCode\<close> replaces every run of white space by one space,
  trims and lowercases: its result is a fixed point of the normalization, contains no
  white space other than single spaces between characters that are not white space, has
  no upper-case letter and keeps the other characters in order. A page is assigned to the
  first item, in list order, whose code is present and not the empty string and whose
  normalized code equals the normalized page code; no other comparison is made. The test
  for the empty string is on the item code as stored, before the normalization: an item
  without a code or with the empty code matches no page, and an item whose code is a
  single space matches a page whose code is a single space, both normalizing to the empty
  string. The item code \<open>12-G DCMR \<section> 309.1\<close> matches the
  page code \<open>12-g dcmr \<section> 309.1\<close>. The item code with two spaces before the section sign
  and none after it normalizes to \<open>12-g dcmr \<section>309.1\<close> and does not match that page code:
  the normalization never inserts white space. Of several items that normalize to the
  page code the first in list order is selected.
\<close>

theorem normalizeCode_first_exact_match:
  "normalizeCode c = toLowerCase (trim (replaceWhiteSpaceRuns c))
   \<and> normalizeCode (normalizeCode c) = normalizeCode c
   \<and> (\<forall>ch\<in>set (normalizeCode c). (isWhiteSpace ch \<longrightarrow> ch = CHR '' '') \<and> \<not> isUpperCase ch)
   \<and> (\<forall>i. Suc i < length (normalizeCode c)
          \<longrightarrow> \<not> (isWhiteSpace (normalizeCode c ! i) \<and> isWhiteSpace (normalizeCode c ! Suc i)))
   \<and> (normalizeCode c \<noteq> []
        \<longrightarrow> \<not> isWhiteSpace (hd (normalizeCode c)) \<and> \<not> isWhiteSpace (last (normalizeCode c)))
   \<and> filter (\<lambda>ch. \<not> isWhiteSpace ch) (normalizeCode c)
        = toLowerCase (filter (\<lambda>ch. \<not> isWhiteSpace ch) c)
   \<and> (find (codeMatches pcode) items = Some item)
        = (\<exists>i<length items. items ! i = item \<and> codeMatches pcode item
             \<and> (\<forall>j<i. \<not> codeMatches pcode (items ! j)))
   \<and> codeMatches pcode item
        = (\<exists>ic. item_violation_code item = Some ic \<and> ic \<noteq> []
                \<and> normalizeCode ic = normalizeCode pcode)
   \<and> normalizeCode itemCodeRegular = normalizeCode pageCodeLower
   \<and> normalizeCode itemCodeIrregular = ''12-g dcmr '' @ [section_sign] @ ''309.1''
   \<and> normalizeCode pageCodeLower = ''12-g dcmr '' @ [section_sign] @ '' 309.1''
   \<and> normalizeCode itemCodeIrregular \<noteq> normalizeCode pageCodeLower
   \<and> codeMatches pageCodeLower \<lparr>item_id = ''item-1'', item_violation_code = Some itemCodeRegular\<rparr>
   \<and> \<not> codeMatches pageCodeLower \<lparr>item_id = ''item-2'', item_violation_code = Some itemCodeIrregular\<rparr>
   \<and> find (codeMatches pageCodeLower)
        [\<lparr>item_id = ''item-0'', item_violation_code = Some itemCodeIrregular\<rparr>,
         \<lparr>item_id = ''item-1'', item_violation_code = Some itemCodeRegular\<rparr>,
         \<lparr>item_id = ''item-2'',
          item_violation_code = Some itemCodeSpaced\<rparr>]
      = Some \<lparr>item_id = ''item-1'', item_violation_code = Some itemCodeRegular\<rparr>
   \<and> \<not> codeMatches pcode \<lparr>item_id = ident, item_violation_code = None\<rparr>
   \<and> \<not> codeMatches pcode \<lparr>item_id = ident, item_violation_code = Some []\<rparr>
   \<and> normalizeCode '' '' = []
   \<and> codeMatches '' '' \<lparr>item_id = ident, item_violation_code = Some '' ''\<rparr>"
proof -
  have 1: "normalizeCode c = toLowerCase (trim (replaceWhiteSpaceRuns c))"
    by (rule normalizeCode_def)
  have 2: "normalizeCode (normalizeCode c) = normalizeCode c"
    by (rule normalizeCode_idem)
  have 3: "\<forall>ch\<in>set (normalizeCode c). (isWhiteSpace ch \<longrightarrow> ch = CHR '' '') \<and> \<not> isUpperCase ch"
    using singleSpaced_set [OF normalizeCode_singleSpaced] normalizeCode_no_upper by blast
  have 4: "\<forall>i. Suc i < length (normalizeCode c)
          \<longrightarrow> \<not> (isWhiteSpace (normalizeCode c ! i) \<and> isWhiteSpace (normalizeCode c ! Suc i))"
    using singleSpaced_adjacent [OF normalizeCode_singleSpaced] by blast
  have 5: "normalizeCode c \<noteq> []
        \<longrightarrow> \<not> isWhiteSpace (hd (normalizeCode c)) \<and> \<not> isWhiteSpace (last (normalizeCode c))"
    using normalizeCode_ends by blast
  have 6: "filter (\<lambda>ch. \<not> isWhiteSpace ch) (normalizeCode c)
        = toLowerCase (filter (\<lambda>ch. \<not> isWhiteSpace ch) c)"
    by (rule normalizeCode_content)
  have 7: "(find (codeMatches pcode) items = Some item)
        = (\<exists>i<length items. items ! i = item \<and> codeMatches pcode item
             \<and> (\<forall>j<i. \<not> codeMatches pcode (items ! j)))"
    by (rule find_first)
  have 8: "codeMatches pcode item
        = (\<exists>ic. item_violation_code item = Some ic \<and> ic \<noteq> []
                \<and> normalizeCode ic = normalizeCode pcode)"
    by (rule codeMatches_iff)
  have 9: "normalizeCode itemCodeRegular = normalizeCode pageCodeLower"
    by (simp only: normalize_regular normalize_page)
  have 10: "normalizeCode itemCodeIrregular = ''12-g dcmr '' @ [section_sign] @ ''309.1''"
    by (rule normalize_irregular)
  have 11: "normalizeCode pageCodeLower = ''12-g dcmr '' @ [section_sign] @ '' 309.1''"
    using normalize_page pageCodeLower_def by (rule trans)
  have n11: "normalizeCode itemCodeIrregular \<noteq> normalizeCode pageCodeLower"
    by (simp only: normalize_page irregular_differs not_False_eq_True)
  have 12: "codeMatches pageCodeLower \<lparr>item_id = ''item-1'', item_violation_code = Some itemCodeRegular\<rparr>"
    by (simp add: codeMatches_iff normalize_regular normalize_page codes_nonempty)
  have 13: "\<not> codeMatches pageCodeLower \<lparr>item_id = ''item-2'', item_violation_code = Some itemCodeIrregular\<rparr>"
    by (simp add: codeMatches_iff irregular_differs normalize_page)
  have m0: "\<not> codeMatches pageCodeLower \<lparr>item_id = ''item-0'', item_violation_code = Some itemCodeIrregular\<rparr>"
    by (simp add: codeMatches_iff irregular_differs normalize_page)
  have 14: "find (codeMatches pageCodeLower)
        [\<lparr>item_id = ''item-0'', item_violation_code = Some itemCodeIrregular\<rparr>,
         \<lparr>item_id = ''item-1'', item_violation_code = Some itemCodeRegular\<rparr>,
         \<lparr>item_id = ''item-2'',
          item_violation_code = Some itemCodeSpaced\<rparr>]
      = Some \<lparr>item_id = ''item-1'', item_violation_code = Some itemCodeRegular\<rparr>"
    using 12 m0 by (simp only: find.simps if_True if_False)
  have 15: "\<not> codeMatches pcode \<lparr>item_id = ident, item_violation_code = None\<rparr>"
    by (simp add: codeMatches_iff)
  have 16: "\<not> codeMatches pcode \<lparr>item_id = ident, item_violation_code = Some []\<rparr>"
    by (simp add: codeMatches_iff)
  have 17: "normalizeCode '' '' = []"
    by (rule normalize_blank)
  have 18: "codeMatches '' '' \<lparr>item_id = ident, item_violation_code = Some '' ''\<rparr>"
    by (simp add: codeMatches_iff)
  show ?thesis
    by (intro conjI 1 2 3 4 5 6 7 8 9 10 11 n11 12 13 14 15 16 17 18)
qed

theorem normalizeCode_first_exact_match_witness:
  "normalizeCode itemCodeRegular \<noteq> []
   \<and> \<not> isWhiteSpace (hd (normalizeCode itemCodeRegular))
   \<and> \<not> isWhiteSpace (last (normalizeCode itemCodeRegular))
   \<and> Suc 9 < length (normalizeCode itemCodeRegular)
   \<and> \<not> (isWhiteSpace (normalizeCode itemCodeRegular ! 9)
          \<and> isWhiteSpace (normalizeCode itemCodeRegular ! Suc 9))
   \<and> CHR '' '' \<in> set (normalizeCode itemCodeRegular)
   \<and> \<not> isUpperCase (CHR '' '')"
proof -
  have ne: "normalizeCode itemCodeRegular \<noteq> []"
    by (simp add: normalize_regular page_nonempty)
  have len: "Suc 9 < length (normalizeCode itemCodeRegular)"
    by (simp only: normalize_regular page_nonempty)
  have mem: "CHR '' '' \<in> set (normalizeCode itemCodeRegular)"
    by (simp only: normalize_regular page_nonempty)
  note T = normalizeCode_first_exact_match [of itemCodeRegular]
  from T ne have e: "\<not> isWhiteSpace (hd (normalizeCode itemCodeRegular))
      \<and> \<not> isWhiteSpace (last (normalizeCode itemCodeRegular))"
    by blast
  from T len have a: "\<not> (isWhiteSpace (normalizeCode itemCodeRegular ! 9)
          \<and> isWhiteSpace (normalizeCode itemCodeRegular ! Suc 9))"
    by blast
  from T mem have u: "\<not> isUpperCase (CHR '' '')"
    by blast
  from ne len mem e a u show ?thesis by blast
qed

text \<open>
  The second item code of the specification's example against the page code of that
  example: the normalized forms differ, and a list holding only that item yields no match.
\<close>

theorem irregular_item_code_does_not_match:
  "normalizeCode itemCodeIrregular \<noteq> normalizeCode pageCodeLower
   \<and> find (codeMatches pageCodeLower)
       [\<lparr>item_id = ''item-2'', item_violation_code = Some itemCodeIrregular\<rparr>] = None"
  by (simp add: codeMatches_iff irregular_differs normalize_page)

section \<open>Properties of the insert-records step\<close>

lemma split_nonempty: "split sep s \<noteq> []"
  by (induction s) (auto split: list.splits)

lemma split_length: "length (split sep s) = Suc (length (filter (\<lambda>c. c = sep) s))"
  by (induction s) (auto split: list.splits simp: split_nonempty)

lemma three_parts:
  "((case xs of [month, day, year] \<Rightarrow> Some (f month day year) | _ \<Rightarrow> None) = None)
     = (length xs \<noteq> 3)"
  by (auto split: list.splits)

lemma parseDate_None_iff:
  "(parseDate s = None) = (s = [] \<or> length (filter (\<lambda>c. c = CHR ''/'') s) \<noteq> 2)"
proof (cases "s = []")
  case True
  then show ?thesis by (simp add: parseDate_def)
next
  case False
  have "(parseDate s = None) = (length (split (CHR ''/'') s) \<noteq> 3)"
    using False unfolding parseDate_def
    by (simp only: if_False three_parts)
  then show ?thesis
    using False by (simp add: split_length)
qed

lemma fracDigits_empty:
  assumes "takeWhile isDigit u = []"
  shows "(fst (case dropWhile isDigit u of
                 [] \<Rightarrow> ([], [])
               | c # r \<Rightarrow> if c = CHR ''.'' then (takeWhile isDigit r, dropWhile isDigit r)
                           else ([], c # r)) = [])
         = (\<not> (case u of [] \<Rightarrow> False
                | c # r \<Rightarrow> c = CHR ''.'' \<and> (case r of [] \<Rightarrow> False | d # _ \<Rightarrow> isDigit d)))"
proof (cases u)
  case Nil
  then show ?thesis by simp
next
  case (Cons c r)
  with assms have nd: "\<not> isDigit c" by (auto split: if_splits)
  show ?thesis
  proof (cases r)
    case Nil
    with Cons nd show ?thesis by simp
  next
    case (Cons d r')
    with \<open>u = c # r\<close> nd show ?thesis by (auto simp: takeWhile_eq_Nil_iff)
  qed
qed

lemma intDigits_empty:
  "(takeWhile isDigit u = []) = (case u of [] \<Rightarrow> True | c # _ \<Rightarrow> \<not> isDigit c)"
  by (cases u) auto

lemma parseFloat_NaN_iff:
  "(parseFloat s = NaN) = (\<not> startsNumber (snd (stripSign (dropWhile isWhiteSpace s))))"
proof -
  obtain neg u where su: "stripSign (dropWhile isWhiteSpace s) = (neg, u)"
    by (cases "stripSign (dropWhile isWhiteSpace s)")
  show ?thesis
  proof (cases "take 8 u = ''Infinity''")
    case True
    then show ?thesis
      by (simp add: parseFloat_def su startsNumber_def)
  next
    case False
    show ?thesis
    proof (cases "takeWhile isDigit u = []")
      case True
      obtain fd r2 where fr: "(case dropWhile isDigit u of
                 [] \<Rightarrow> ([], [])
               | c # r \<Rightarrow> if c = CHR ''.'' then (takeWhile isDigit r, dropWhile isDigit r)
                           else ([], c # r)) = (fd, r2)"
        by (cases "(case dropWhile isDigit u of
                 [] \<Rightarrow> ([]::string, []::string)
               | c # r \<Rightarrow> if c = CHR ''.'' then (takeWhile isDigit r, dropWhile isDigit r)
                           else ([], c # r))")
      have fd: "(fd = []) = (\<not> (case u of [] \<Rightarrow> False
                | c # r \<Rightarrow> c = CHR ''.'' \<and> (case r of [] \<Rightarrow> False | d # _ \<Rightarrow> isDigit d)))"
        using fracDigits_empty [OF True] fr by simp
      have nan: "(parseFloat s = NaN) = (fd = [])"
        using False True fr by (simp add: parseFloat_def su Let_def)
      have sn: "startsNumber u = (case u of [] \<Rightarrow> False
                | c # r \<Rightarrow> c = CHR ''.'' \<and> (case r of [] \<Rightarrow> False | d # _ \<Rightarrow> isDigit d))"
        using False True by (cases u) (auto simp: startsNumber_def split: if_splits)
      from nan fd sn show ?thesis by (simp add: su)
    next
      case nonempty: False
      then have sn: "startsNumber u"
        by (cases u) (auto simp: startsNumber_def split: if_splits)
      have "parseFloat s \<noteq> NaN"
        using False nonempty
        by (simp add: parseFloat_def su Let_def split: prod.splits)
      with sn show ?thesis by (simp add: su)
    qed
  qed
qed

lemma parseFine_None_iff:
  "(parseFine s = None)
     = (\<not> startsNumber
            (snd (stripSign (dropWhile isWhiteSpace
                    (filter (\<lambda>c. c \<noteq> CHR ''$'' \<and> c \<noteq> CHR '','') s)))))"
  by (simp add: parseFine_def Let_def parseFloat_NaN_iff)

lemma parseFine_example: "parseFine ''$1,234.56'' = Some (Finite 1234.56)"
  by (simp add: parseFine_def parseFloat_def stripSign_def isWhiteSpace_def isDigit_def
        digitsValue_def digitValue_def exponentPart_def scale10_def)

lemma parseDate_example: "parseDate ''02/15/2025'' = Some ''2025-02-15''"
  by (simp add: parseDate_def padStart_def)

lemma parseDate_malformed: "parseDate ''a/b/c'' = Some ''c-0a-0b''"
  by (simp add: parseDate_def padStart_def)

lemma parseFine_malformed: "parseFine ''12abc'' = Some (Finite 12)"
  by (simp add: parseFine_def parseFloat_def stripSign_def isWhiteSpace_def isDigit_def
        digitsValue_def digitValue_def exponentPart_def scale10_def)

lemma parseFine_na: "parseFine ''N/A'' = None"
  by (simp add: parseFine_None_iff startsNumber_def stripSign_def isWhiteSpace_def isDigit_def)

lemma parseDate_nodate: "parseDate ''2025-02-15'' = None"
  by (simp add: parseDate_None_iff)

lemma not_wellformed: "\<not> spec_wellFormedDate ''a/b/c''"
  by (simp add: spec_wellFormedDate_def)

subsection \<open>Currency and date parsers\<close>

text \<open>
  Claim C7, as amended. The currency parser maps \<open>$1,234.56\<close> to 1234.56 and the date parser
  maps \<open>02/15/2025\<close> to \<open>2025-02-15\<close>. Both parsers are total on strings: they have no
  failing branch. The date parser returns null exactly for the empty string and for
  strings that do not have exactly two slashes; the currency parser returns null exactly
  when the text, with every dollar sign and comma removed, does not start (after white
  space and an optional sign) with a decimal number or \<open>Infinity\<close>.
\<close>

theorem parsers_null_on_unparseable:
  "parseFine ''$1,234.56'' = Some (Finite 1234.56)
   \<and> parseDate ''02/15/2025'' = Some ''2025-02-15''
   \<and> (parseDate s = None) = (s = [] \<or> length (filter (\<lambda>c. c = CHR ''/'') s) \<noteq> 2)
   \<and> (parseFine s = None)
        = (\<not> startsNumber
               (snd (stripSign (dropWhile isWhiteSpace
                       (filter (\<lambda>c. c \<noteq> CHR ''$'' \<and> c \<noteq> CHR '','') s)))))
   \<and> (parseFloat s = NaN) = (\<not> startsNumber (snd (stripSign (dropWhile isWhiteSpace s))))
   \<and> parseFine ''N/A'' = None
   \<and> parseDate ''2025-02-15'' = None"
  using parseFine_example parseDate_example parseDate_None_iff [of s] parseFine_None_iff [of s]
        parseFloat_NaN_iff [of s] parseFine_na parseDate_nodate
  by (intro conjI)

theorem parsers_null_on_unparseable_witness:
  "parseDate ''15 Feb 2025'' = None \<and> parseFine ''$ TBD'' = None"
proof -
  have d: "''15 Feb 2025'' = [] \<or> length (filter (\<lambda>c. c = CHR ''/'') ''15 Feb 2025'') \<noteq> 2"
    by simp
  have f: "\<not> startsNumber
               (snd (stripSign (dropWhile isWhiteSpace
                       (filter (\<lambda>c. c \<noteq> CHR ''$'' \<and> c \<noteq> CHR '','') ''$ TBD''))))"
    by (simp add: startsNumber_def stripSign_def isWhiteSpace_def isDigit_def)
  from d parsers_null_on_unparseable [of "''15 Feb 2025''"] have 1: "parseDate ''15 Feb 2025'' = None"
    by blast
  from f parsers_null_on_unparseable [of "''$ TBD''"] have 2: "parseFine ''$ TBD'' = None"
    by blast
  from 1 2 show ?thesis by (rule conjI)
qed

text \<open>
  Malformed inputs that do not yield null: three slash-separated parts that are not
  numbers are reassembled into a string, and a number followed by letters is read as the
  number.
\<close>

theorem malformed_inputs_parse_to_values:
  "\<not> spec_wellFormedDate ''a/b/c''
   \<and> parseDate ''a/b/c'' = Some ''c-0a-0b''
   \<and> parseFine ''12abc'' = Some (Finite 12)"
  using not_wellformed parseDate_malformed parseFine_malformed
  by (intro conjI)

lemma Math_min_Min: "xs \<noteq> [] \<Longrightarrow> Math_min xs = Some (Min (set xs))"
proof (induction xs)
  case Nil
  then show ?case by simp
next
  case (Cons x xs)
  show ?case
  proof (cases "xs = []")
    case True
    then show ?thesis by simp
  next
    case False
    with Cons.IH show ?thesis by simp
  qed
qed

lemma Math_min_None: "(Math_min xs = None) = (xs = [])"
  by (cases xs) simp_all

lemma Day_days: "Day (z * msPerDay) = z"
  by (simp add: Day_def msPerDay_def)

lemma day_and_time: "Day t * msPerDay + TimeWithinDay t = t"
  by (simp add: Day_def TimeWithinDay_def)

lemma setDate_getDate:
  "setDate tz t (getDate tz t + n) = TimeClip (UTC tz (LocalTime tz t + n * msPerDay))"
proof -
  have "(Day (LocalTime tz t) - (DateFromTime (LocalTime tz t) - 1)
           + (DateFromTime (LocalTime tz t) + n) - 1) * msPerDay + TimeWithinDay (LocalTime tz t)
        = (Day (LocalTime tz t) * msPerDay + TimeWithinDay (LocalTime tz t)) + n * msPerDay"
    by (simp add: algebra_simps)
  then show ?thesis
    by (simp only: setDate_def getDate_def Let_def day_and_time)
qed

lemma isoDateOnly_nonempty: "isoDateOnly sd = Some day \<Longrightarrow> sd \<noteq> []"
  by (auto simp: isoDateOnly_def)

lemma deadlineDate_local:
  assumes "parseDate (date_of_service (notice_level_data r)) = Some sd"
    and "isoDateOnly sd = Some day" and "work_orders r \<noteq> []"
  shows "deadlineDate tz engineParse r
           = (case toISODate
                     (TimeClip (UTC tz (LocalTime tz (day * msPerDay)
                                         + Min (set (map deadlineDays (work_orders r))) * msPerDay))) of
                Inl e \<Rightarrow> Inl e
              | Inr isoDate \<Rightarrow> Inr (Some isoDate))"
proof -
  have sdne: "sd \<noteq> []"
    using assms(2) by (rule isoDateOnly_nonempty)
  have mm: "Math_min (map deadlineDays (work_orders r))
              = Some (Min (set (map deadlineDays (work_orders r))))"
    using assms(3) by (intro Math_min_Min) simp
  have nd: "newDate engineParse sd = Some (day * msPerDay)"
    using assms(2) by (simp add: newDate_def)
  show ?thesis
    using assms(1,3) sdne mm nd by (simp add: deadlineDate_def Let_def truthy_def setDate_getDate)
qed

lemma same_offset:
  "tzaLocal tz (LocalTime tz t + d) = tzaUTC tz t \<Longrightarrow> UTC tz (LocalTime tz t + d) = t + d"
  by (simp add: UTC_def LocalTime_def)

lemma deadlineDate_valid:
  assumes "parseDate (date_of_service (notice_level_data r)) = Some sd"
    and "isoDateOnly sd = Some day" and "work_orders r \<noteq> []"
    and "tzaLocal tz (LocalTime tz (day * msPerDay)
                       + Min (set (map deadlineDays (work_orders r))) * msPerDay)
           = tzaUTC tz (day * msPerDay)"
  shows "deadlineDate tz engineParse r
           = (case toISODate
                     (TimeClip ((day + Min (set (map deadlineDays (work_orders r)))) * msPerDay)) of
                Inl e \<Rightarrow> Inl e
              | Inr isoDate \<Rightarrow> Inr (Some isoDate))"
proof -
  have "UTC tz (LocalTime tz (day * msPerDay)
                  + Min (set (map deadlineDays (work_orders r))) * msPerDay)
          = (day + Min (set (map deadlineDays (work_orders r)))) * msPerDay"
    using same_offset [OF assms(4)] by (simp add: algebra_simps)
  then show ?thesis
    using deadlineDate_local [OF assms(1,2,3), of tz engineParse] by simp
qed

lemma fixedZone_offsets: "tzaLocal (fixedZone c) t = tzaUTC (fixedZone c) u"
  by (simp add: fixedZone_def)

lemma deadlineDays_le_60_unparsed:
  "parseInt (wo_abatement_deadline wo) = None \<Longrightarrow> deadlineDays wo = 60"
  by (simp add: deadlineDays_def)

lemma all_parse_list:
  "\<forall>wo\<in>set wos. \<exists>n. parseInt (wo_abatement_deadline wo) = Some n \<and> n \<noteq> 0
   \<Longrightarrow> concat (map (\<lambda>wo. case parseInt (wo_abatement_deadline wo) of
                              None \<Rightarrow> [] | Some n \<Rightarrow> [n]) wos)
         = map deadlineDays wos"
  by (induction wos) (auto simp: deadlineDays_def)

lemma all_parse_agrees:
  assumes "wos \<noteq> []"
    and "\<forall>wo\<in>set wos. \<exists>n. parseInt (wo_abatement_deadline wo) = Some n \<and> n \<noteq> 0"
  shows "Min (set (map deadlineDays wos)) = spec_shortestDeadline wos"
proof -
  have "Math_min (map deadlineDays wos) = Some (Min (set (map deadlineDays wos)))"
    using assms(1) by (intro Math_min_Min) simp
  then show ?thesis
    by (simp add: spec_shortestDeadline_def all_parse_list [OF assms(2)])
qed

lemma none_parse_60:
  assumes "wos \<noteq> []"
    and "\<forall>wo\<in>set wos. parseInt (wo_abatement_deadline wo) = None"
  shows "Min (set (map deadlineDays wos)) = 60"
proof -
  obtain w ws where w: "wos = w # ws"
    using assms(1) by (cases wos) auto
  have "set (map deadlineDays wos) = {60}"
    using assms(2) w by (auto simp: deadlineDays_def)
  then show ?thesis by simp
qed

lemma unparsed_caps_at_60:
  assumes "wo \<in> set wos" and "parseInt (wo_abatement_deadline wo) = None"
  shows "Min (set (map deadlineDays wos)) \<le> 60"
proof -
  have "deadlineDays wo \<in> set (map deadlineDays wos)"
    using assms(1) by simp
  then have "Min (set (map deadlineDays wos)) \<le> deadlineDays wo"
    by (intro Min_le) simp_all
  with assms(2) show ?thesis by (simp add: deadlineDays_def)
qed

lemma parseInt_60: "parseInt ''60 Days'' = Some 60"
  by (simp add: parseInt_def stripSign_def isWhiteSpace_def digitValue_def)

lemma parseInt_30: "parseInt ''30 Days'' = Some 30"
  by (simp add: parseInt_def stripSign_def isWhiteSpace_def digitValue_def)

lemma parseInt_90: "parseInt ''90 Days'' = Some 90"
  by (simp add: parseInt_def stripSign_def isWhiteSpace_def digitValue_def)

lemma parseInt_nan: "parseInt ''not a number'' = None"
  by (simp add: parseInt_def stripSign_def isWhiteSpace_def digitValue_def)

lemma parseDate_jan1: "parseDate ''01/01/2025'' = Some ''2025-01-01''"
  by (simp add: parseDate_def padStart_def)

lemma isoDateOnly_jan1: "isoDateOnly ''2025-01-01'' = Some 20089"
  by code_simp

lemma isoDateOfDay_jan31: "isoDateOfDay 20119 = ''2025-01-31''"
  by code_simp

lemma isoDateOfDay_mar2: "isoDateOfDay 20149 = ''2025-03-02''"
  by code_simp

lemma isoDateOfDay_mar31: "isoDateOfDay 20178 = ''2025-03-31''"
  by code_simp

lemma isoDateOfDay_apr1: "isoDateOfDay 20179 = ''2025-04-01''"
  by code_simp

lemma toISODate_day:
  "\<bar>z\<bar> \<le> 100000000 \<Longrightarrow> toISODate (TimeClip (z * msPerDay)) = Inr (isoDateOfDay z)"
proof -
  assume "\<bar>z\<bar> \<le> 100000000"
  then have "\<bar>z * msPerDay\<bar> \<le> 8640000000000000"
    by (simp add: msPerDay_def abs_mult)
  then show ?thesis
    by (simp add: toISODate_def TimeClip_def Day_days)
qed

text \<open>
  The calendar on a leap day, at the epoch and past the last time value; a date-only form
  that names no day of the calendar is read as the engine reads it.
\<close>

lemma calendar_samples:
  "isoDateOnly ''2024-02-29'' = Some 19782 \<and> isoDateOfDay 19782 = ''2024-02-29''
   \<and> isoDateOfDay 19783 = ''2024-03-01'' \<and> isoDateOnly ''2025-02-29'' = None
   \<and> isoDateOfDay 0 = ''1970-01-01''"
  by code_simp

lemma newDate_engine:
  "newDate engineParse ''2025-02-29''
     = (case engineParse ''2025-02-29'' of None \<Rightarrow> None | Some t \<Rightarrow> TimeClip t)
   \<and> newDate engineParse ''2025-01-01'' = Some 1735689600000
   \<and> toISODate (TimeClip (100000001 * msPerDay)) = Inl RangeError
   \<and> toISODate None = Inl RangeError"
  using calendar_samples isoDateOnly_jan1
  by (simp add: newDate_def toISODate_def TimeClip_def msPerDay_def)

lemma deadlineDays_text:
  "map deadlineDays wos
     = map (\<lambda>d. case parseInt d of None \<Rightarrow> 60 | Some n \<Rightarrow> if n = 0 then 60 else n)
         (map wo_abatement_deadline wos)"
  by (simp add: deadlineDays_def comp_def)

lemma deadline_example:
  assumes "date_of_service (notice_level_data r) = ''01/01/2025''"
    and "map wo_abatement_deadline (work_orders r) = [''60 Days'', ''30 Days'', ''not a number'']"
    and "tzaLocal tz (LocalTime tz (20089 * msPerDay) + 30 * msPerDay) = tzaUTC tz (20089 * msPerDay)"
  shows "deadlineDate tz engineParse r = Inr (Some ''2025-01-31'')"
proof -
  have ne: "work_orders r \<noteq> []" using assms(2) by auto
  have pd: "parseDate (date_of_service (notice_level_data r)) = Some ''2025-01-01''"
    by (simp only: assms(1) parseDate_jan1)
  have ds: "map deadlineDays (work_orders r) = [60, 30, 60]"
    by (simp only: deadlineDays_text assms(2)) (simp add: parseInt_60 parseInt_30 parseInt_nan)
  have mn: "Min (set (map deadlineDays (work_orders r))) = 30"
    by (simp add: ds)
  have z: "tzaLocal tz (LocalTime tz (20089 * msPerDay)
                       + Min (set (map deadlineDays (work_orders r))) * msPerDay)
           = tzaUTC tz (20089 * msPerDay)"
    by (simp only: mn assms(3))
  have "deadlineDate tz engineParse r
          = (case toISODate (TimeClip ((20089 + 30) * msPerDay)) of
                Inl e \<Rightarrow> Inl e | Inr isoDate \<Rightarrow> Inr (Some isoDate))"
    using deadlineDate_valid [OF pd isoDateOnly_jan1 ne z, of engineParse] by (simp only: mn)
  then show ?thesis by (simp add: toISODate_day isoDateOfDay_jan31)
qed

subsection \<open>Record-level deadline\<close>

text \<open>
  Claim C3, as amended. For a notice whose service date parses to a day of the calendar
  and whose work-order list is not empty, the deadline is the UTC date of the time value
  that \<^verbatim>\<open>setDate\<close> reaches from UTC midnight of the service date by moving the local day by
  the minimum, over the items, of the item's days. When the UTC offset of the process's
  zone at that local time is its offset at UTC midnight of the service date (so in UTC and
  in every zone with a fixed offset), the deadline is the service date plus that minimum.
  The days of an item are the number \<open>parseInt\<close> reads from the item's deadline text, and
  60 for an item whose text does not parse (or parses to 0). So the minimum is the minimum
  of the parsed values when every item parses to a number other than 0, it is 60 when no
  item parses, and an item that does not parse caps it at 60. Service date 2025-01-01
  with the item deadlines 60 Days, 30 Days and an unparsable text gives 2025-01-31 in such
  a zone.
\<close>

theorem deadline_is_service_date_plus_item_minimum:
  assumes "parseDate (date_of_service (notice_level_data r)) = Some sd"
    and "isoDateOnly sd = Some day" and "work_orders r \<noteq> []"
  shows "deadlineDate tz engineParse r
           = (case toISODate
                     (TimeClip (UTC tz (LocalTime tz (day * msPerDay)
                                         + Min (set (map deadlineDays (work_orders r))) * msPerDay))) of
                Inl e \<Rightarrow> Inl e
              | Inr isoDate \<Rightarrow> Inr (Some isoDate))
         \<and> (tzaLocal tz (LocalTime tz (day * msPerDay)
                          + Min (set (map deadlineDays (work_orders r))) * msPerDay)
              = tzaUTC tz (day * msPerDay)
            \<longrightarrow> deadlineDate tz engineParse r
                  = (case toISODate
                            (TimeClip ((day + Min (set (map deadlineDays (work_orders r))))
                                         * msPerDay)) of
                       Inl e \<Rightarrow> Inl e
                     | Inr isoDate \<Rightarrow> Inr (Some isoDate)))
         \<and> (\<forall>wo\<in>set (work_orders r).
               deadlineDays wo
                 = (case parseInt (wo_abatement_deadline wo) of
                      None \<Rightarrow> 60
                    | Some n \<Rightarrow> if n = 0 then 60 else n))
         \<and> ((\<forall>wo\<in>set (work_orders r). \<exists>n. parseInt (wo_abatement_deadline wo) = Some n \<and> n \<noteq> 0)
              \<longrightarrow> Min (set (map deadlineDays (work_orders r))) = spec_shortestDeadline (work_orders r))
         \<and> ((\<forall>wo\<in>set (work_orders r). parseInt (wo_abatement_deadline wo) = None)
              \<longrightarrow> Min (set (map deadlineDays (work_orders r))) = 60)
         \<and> ((\<exists>wo\<in>set (work_orders r). parseInt (wo_abatement_deadline wo) = None)
              \<longrightarrow> Min (set (map deadlineDays (work_orders r))) \<le> 60)
         \<and> (date_of_service (notice_level_data r) = ''01/01/2025''
              \<and> map wo_abatement_deadline (work_orders r) = [''60 Days'', ''30 Days'', ''not a number'']
              \<and> tzaLocal tz (LocalTime tz (20089 * msPerDay) + 30 * msPerDay)
                  = tzaUTC tz (20089 * msPerDay)
              \<longrightarrow> deadlineDate tz engineParse r = Inr (Some ''2025-01-31''))"
proof -
  have 0: "deadlineDate tz engineParse r
           = (case toISODate
                     (TimeClip (UTC tz (LocalTime tz (day * msPerDay)
                                         + Min (set (map deadlineDays (work_orders r))) * msPerDay))) of
                Inl e \<Rightarrow> Inl e
              | Inr isoDate \<Rightarrow> Inr (Some isoDate))"
    using assms by (rule deadlineDate_local)
  have 1: "tzaLocal tz (LocalTime tz (day * msPerDay)
                          + Min (set (map deadlineDays (work_orders r))) * msPerDay)
              = tzaUTC tz (day * msPerDay)
            \<longrightarrow> deadlineDate tz engineParse r
                  = (case toISODate
                            (TimeClip ((day + Min (set (map deadlineDays (work_orders r))))
                                         * msPerDay)) of
                       Inl e \<Rightarrow> Inl e
                     | Inr isoDate \<Rightarrow> Inr (Some isoDate))"
  proof (intro impI)
    assume z: "tzaLocal tz (LocalTime tz (day * msPerDay)
                          + Min (set (map deadlineDays (work_orders r))) * msPerDay)
              = tzaUTC tz (day * msPerDay)"
    show "deadlineDate tz engineParse r
                  = (case toISODate
                            (TimeClip ((day + Min (set (map deadlineDays (work_orders r))))
                                         * msPerDay)) of
                       Inl e \<Rightarrow> Inl e
                     | Inr isoDate \<Rightarrow> Inr (Some isoDate))"
      using assms z by (rule deadlineDate_valid)
  qed
  have 2: "\<forall>wo\<in>set (work_orders r).
               deadlineDays wo
                 = (case parseInt (wo_abatement_deadline wo) of
                      None \<Rightarrow> 60
                    | Some n \<Rightarrow> if n = 0 then 60 else n)"
    by (simp add: deadlineDays_def)
  have 3: "(\<forall>wo\<in>set (work_orders r). \<exists>n. parseInt (wo_abatement_deadline wo) = Some n \<and> n \<noteq> 0)
              \<longrightarrow> Min (set (map deadlineDays (work_orders r))) = spec_shortestDeadline (work_orders r)"
    using all_parse_agrees [OF assms(3)] by blast
  have 4: "(\<forall>wo\<in>set (work_orders r). parseInt (wo_abatement_deadline wo) = None)
              \<longrightarrow> Min (set (map deadlineDays (work_orders r))) = 60"
    using none_parse_60 [OF assms(3)] by blast
  have 5: "(\<exists>wo\<in>set (work_orders r). parseInt (wo_abatement_deadline wo) = None)
              \<longrightarrow> Min (set (map deadlineDays (work_orders r))) \<le> 60"
    using unparsed_caps_at_60 by blast
  have 6: "date_of_service (notice_level_data r) = ''01/01/2025''
              \<and> map wo_abatement_deadline (work_orders r) = [''60 Days'', ''30 Days'', ''not a number'']
              \<and> tzaLocal tz (LocalTime tz (20089 * msPerDay) + 30 * msPerDay)
                  = tzaUTC tz (20089 * msPerDay)
              \<longrightarrow> deadlineDate tz engineParse r = Inr (Some ''2025-01-31'')"
  proof (intro impI)
    assume a: "date_of_service (notice_level_data r) = ''01/01/2025''
              \<and> map wo_abatement_deadline (work_orders r) = [''60 Days'', ''30 Days'', ''not a number'']
              \<and> tzaLocal tz (LocalTime tz (20089 * msPerDay) + 30 * msPerDay)
                  = tzaUTC tz (20089 * msPerDay)"
    show "deadlineDate tz engineParse r = Inr (Some ''2025-01-31'')"
      by (rule deadline_example [OF conjunct1 [OF a] conjunct1 [OF conjunct2 [OF a]]
                                    conjunct2 [OF conjunct2 [OF a]]])
  qed
  show ?thesis
    by (intro conjI 0 1 2 3 4 5 6)
qed

lemma sample_fields:
  "date_of_service (notice_level_data (sampleNotice d wos)) = d"
  "work_orders (sampleNotice d wos) = wos"
  "wo_abatement_deadline (sampleWorkOrder t p) = t"
  "wo_priority (sampleWorkOrder t p) = p"
  by (simp_all add: sampleNotice_def sampleWorkOrder_def)

theorem deadline_is_service_date_plus_item_minimum_witness:
  "parseDate (date_of_service (notice_level_data
      (sampleNotice ''01/01/2025''
         [sampleWorkOrder ''60 Days'' 2, sampleWorkOrder ''30 Days'' 1,
          sampleWorkOrder ''not a number'' 3]))) = Some ''2025-01-01''
   \<and> isoDateOnly ''2025-01-01'' = Some 20089
   \<and> work_orders (sampleNotice ''01/01/2025''
         [sampleWorkOrder ''60 Days'' 2, sampleWorkOrder ''30 Days'' 1,
          sampleWorkOrder ''not a number'' 3]) \<noteq> []
   \<and> tzaLocal (fixedZone (- 18000000))
        (LocalTime (fixedZone (- 18000000)) (20089 * msPerDay) + 30 * msPerDay)
       = tzaUTC (fixedZone (- 18000000)) (20089 * msPerDay)
   \<and> deadlineDate (fixedZone (- 18000000)) (\<lambda>s. None)
       (sampleNotice ''01/01/2025''
         [sampleWorkOrder ''60 Days'' 2, sampleWorkOrder ''30 Days'' 1,
          sampleWorkOrder ''not a number'' 3]) = Inr (Some ''2025-01-31'')"
proof -
  let ?r = "sampleNotice ''01/01/2025''
         [sampleWorkOrder ''60 Days'' 2, sampleWorkOrder ''30 Days'' 1,
          sampleWorkOrder ''not a number'' 3]"
  let ?tz = "fixedZone (- 18000000)"
  have h1: "parseDate (date_of_service (notice_level_data ?r)) = Some ''2025-01-01''"
    by (simp only: sample_fields parseDate_jan1)
  have h3: "work_orders ?r \<noteq> []"
    by (simp add: sample_fields)
  have z: "tzaLocal ?tz (LocalTime ?tz (20089 * msPerDay) + 30 * msPerDay)
             = tzaUTC ?tz (20089 * msPerDay)"
    by (rule fixedZone_offsets)
  have e: "date_of_service (notice_level_data ?r) = ''01/01/2025''
           \<and> map wo_abatement_deadline (work_orders ?r) = [''60 Days'', ''30 Days'', ''not a number'']
           \<and> tzaLocal ?tz (LocalTime ?tz (20089 * msPerDay) + 30 * msPerDay)
               = tzaUTC ?tz (20089 * msPerDay)"
    using z by (simp add: sample_fields)
  note T = deadline_is_service_date_plus_item_minimum [OF h1 isoDateOnly_jan1 h3, of ?tz "\<lambda>s. None"]
  have d: "deadlineDate ?tz (\<lambda>s. None) ?r = Inr (Some ''2025-01-31'')"
    by (rule T [THEN conjunct2, THEN conjunct2, THEN conjunct2, THEN conjunct2, THEN conjunct2,
                THEN conjunct2, THEN mp, OF e])
  show ?thesis
    by (intro conjI h1 isoDateOnly_jan1 h3 z d)
qed

text \<open>
  The default is applied per item, not only when no item parses: in UTC, with the item
  deadlines 90 Days and an unparsable text the deadline is the service date plus 60 days,
  where the minimum of the parsable values is 90. And the deadline is a day short of the
  service date plus the minimum when the offset of the zone changes in between: under the
  rules of \<^verbatim>\<open>America/New_York\<close>, service date 2025-01-01 and the single item deadline 90 Days
  give 2025-03-31, where 2025-01-01 plus 90 days is 2025-04-01.
\<close>

theorem unparsed_item_counts_as_60:
  "deadlineDate (fixedZone 0) (\<lambda>s. None)
       (sampleNotice ''01/01/2025''
          [sampleWorkOrder ''90 Days'' 3, sampleWorkOrder ''not a number'' 3])
     = Inr (Some ''2025-03-02'')
   \<and> spec_shortestDeadline [sampleWorkOrder ''90 Days'' 3, sampleWorkOrder ''not a number'' 3] = 90
   \<and> isoDateOnly ''2025-01-01'' = Some 20089
   \<and> isoDateOfDay (20089 + 90) = ''2025-04-01''
   \<and> deadlineDate newYork2025 (\<lambda>s. None) (sampleNotice ''01/01/2025'' [sampleWorkOrder ''90 Days'' 3])
     = Inr (Some ''2025-03-31'')
   \<and> spec_shortestDeadline [sampleWorkOrder ''90 Days'' 3] = 90"
proof -
  let ?wos = "[sampleWorkOrder ''90 Days'' 3, sampleWorkOrder ''not a number'' 3]"
  let ?r = "sampleNotice ''01/01/2025'' ?wos"
  let ?r1 = "sampleNotice ''01/01/2025'' [sampleWorkOrder ''90 Days'' 3]"
  have pd: "parseDate (date_of_service (notice_level_data ?r)) = Some ''2025-01-01''"
    by (simp only: sample_fields parseDate_jan1)
  have ne: "work_orders ?r \<noteq> []"
    by (simp add: sample_fields)
  have ds: "map deadlineDays (work_orders ?r) = [90, 60]"
    by (simp add: sample_fields deadlineDays_def parseInt_90 parseInt_nan)
  have mn: "Min (set (map deadlineDays (work_orders ?r))) = 60"
    by (simp add: ds)
  have z: "tzaLocal (fixedZone 0)
             (LocalTime (fixedZone 0) (20089 * msPerDay)
                + Min (set (map deadlineDays (work_orders ?r))) * msPerDay)
           = tzaUTC (fixedZone 0) (20089 * msPerDay)"
    by (rule fixedZone_offsets)
  have "deadlineDate (fixedZone 0) (\<lambda>s. None) ?r
          = (case toISODate (TimeClip ((20089 + 60) * msPerDay)) of
                Inl e \<Rightarrow> Inl e | Inr isoDate \<Rightarrow> Inr (Some isoDate))"
    using deadlineDate_valid [OF pd isoDateOnly_jan1 ne z, of "\<lambda>s. None"] by (simp only: mn)
  then have 1: "deadlineDate (fixedZone 0) (\<lambda>s. None) ?r = Inr (Some ''2025-03-02'')"
    by (simp add: toISODate_day isoDateOfDay_mar2)
  have 2: "spec_shortestDeadline ?wos = 90"
    by (simp add: spec_shortestDeadline_def sample_fields parseInt_90 parseInt_nan)
  have 3: "isoDateOfDay (20089 + 90) = ''2025-04-01''"
    using isoDateOfDay_apr1 by simp
  have pd1: "parseDate (date_of_service (notice_level_data ?r1)) = Some ''2025-01-01''"
    by (simp only: sample_fields parseDate_jan1)
  have ne1: "work_orders ?r1 \<noteq> []"
    by (simp add: sample_fields)
  have mn1: "Min (set (map deadlineDays (work_orders ?r1))) = 90"
    by (simp add: sample_fields deadlineDays_def parseInt_90)
  have u: "UTC newYork2025 (LocalTime newYork2025 (20089 * msPerDay) + 90 * msPerDay)
             = 20178 * msPerDay + 82800000"
    by (simp add: UTC_def LocalTime_def newYork2025_def msPerDay_def)
  have "deadlineDate newYork2025 (\<lambda>s. None) ?r1
          = (case toISODate (TimeClip (20178 * msPerDay + 82800000)) of
                Inl e \<Rightarrow> Inl e | Inr isoDate \<Rightarrow> Inr (Some isoDate))"
    using deadlineDate_local [OF pd1 isoDateOnly_jan1 ne1, of newYork2025 "\<lambda>s. None"]
    by (simp only: mn1 u)
  then have 4: "deadlineDate newYork2025 (\<lambda>s. None) ?r1 = Inr (Some ''2025-03-31'')"
    by (simp add: toISODate_def TimeClip_def Day_def msPerDay_def isoDateOfDay_mar31)
  have 5: "spec_shortestDeadline [sampleWorkOrder ''90 Days'' 3] = 90"
    by (simp add: spec_shortestDeadline_def sample_fields parseInt_90)
  from 1 2 isoDateOnly_jan1 3 4 5 show ?thesis by (intro conjI)
qed

lemma priority_min:
  "Math_min (map wo_priority wos @ [3]) = Some (Min (insert 3 (set (map wo_priority wos))))"
proof -
  have "Math_min (map wo_priority wos @ [3]) = Some (Min (set (map wo_priority wos @ [3])))"
    by (intro Math_min_Min) simp
  then show ?thesis by simp
qed

lemma violationUpdate_priority:
  "violationUpdate tz engineParse r = Inr u
   \<Longrightarrow> upd_priority u = Math_min (map wo_priority (work_orders r) @ [3])"
  by (auto simp: violationUpdate_def split: sum.splits)

lemma violationUpdate_total:
  "deadlineDate tz engineParse r = Inr d
   \<Longrightarrow> \<exists>u. violationUpdate tz engineParse r = Inr u \<and> upd_abatement_deadline u = d"
  by (simp add: violationUpdate_def)

subsection \<open>Record-level priority\<close>

text \<open>
  Claim C9. The priority written by the update of the violation record is the minimum of
  the item priorities and the default 3; item priorities 2, 1, 3 give 1, and an empty
  work-order list gives 3.
\<close>

theorem record_priority_is_minimum:
  "Math_min (map wo_priority wos @ [3]) = Some (Min (insert 3 (set (map wo_priority wos))))
   \<and> (violationUpdate tz engineParse r = Inr u
        \<longrightarrow> upd_priority u = Some (Min (insert 3 (set (map wo_priority (work_orders r))))))
   \<and> (violationUpdate tz engineParse r = Inr u \<and> map wo_priority (work_orders r) = [2, 1, 3]
        \<longrightarrow> upd_priority u = Some 1)
   \<and> (violationUpdate tz engineParse r = Inr u \<and> work_orders r = [] \<longrightarrow> upd_priority u = Some 3)"
proof -
  have 1: "Math_min (map wo_priority wos @ [3]) = Some (Min (insert 3 (set (map wo_priority wos))))"
    by (rule priority_min)
  have 2: "violationUpdate tz engineParse r = Inr u
        \<longrightarrow> upd_priority u = Some (Min (insert 3 (set (map wo_priority (work_orders r)))))"
    using violationUpdate_priority [of tz engineParse r u] priority_min [of "work_orders r"] by simp
  have 3: "violationUpdate tz engineParse r = Inr u \<and> map wo_priority (work_orders r) = [2, 1, 3]
        \<longrightarrow> upd_priority u = Some 1"
    using violationUpdate_priority [of tz engineParse r u] by auto
  have 4: "violationUpdate tz engineParse r = Inr u \<and> work_orders r = [] \<longrightarrow> upd_priority u = Some 3"
    using violationUpdate_priority [of tz engineParse r u] by auto
  show ?thesis by (intro conjI 1 2 3 4)
qed

theorem record_priority_is_minimum_witness:
  "\<exists>u. violationUpdate (fixedZone 0) (\<lambda>s. None)
          (sampleNotice ''01/01/2025''
           [sampleWorkOrder ''60 Days'' 2, sampleWorkOrder ''30 Days'' 1,
            sampleWorkOrder ''not a number'' 3]) = Inr u
        \<and> map wo_priority (work_orders (sampleNotice ''01/01/2025''
           [sampleWorkOrder ''60 Days'' 2, sampleWorkOrder ''30 Days'' 1,
            sampleWorkOrder ''not a number'' 3])) = [2, 1, 3]
        \<and> upd_priority u = Some 1"
proof -
  let ?r = "sampleNotice ''01/01/2025''
           [sampleWorkOrder ''60 Days'' 2, sampleWorkOrder ''30 Days'' 1,
            sampleWorkOrder ''not a number'' 3]"
  have e: "date_of_service (notice_level_data ?r) = ''01/01/2025''"
    "map wo_abatement_deadline (work_orders ?r) = [''60 Days'', ''30 Days'', ''not a number'']"
    by (simp_all add: sample_fields)
  have z: "tzaLocal (fixedZone 0) (LocalTime (fixedZone 0) (20089 * msPerDay) + 30 * msPerDay)
             = tzaUTC (fixedZone 0) (20089 * msPerDay)"
    by (rule fixedZone_offsets)
  have dd: "deadlineDate (fixedZone 0) (\<lambda>s. None) ?r = Inr (Some ''2025-01-31'')"
    using e z by (rule deadline_example)
  obtain u where u: "violationUpdate (fixedZone 0) (\<lambda>s. None) ?r = Inr u"
    using violationUpdate_total [OF dd] by (elim exE conjE)
  have p: "map wo_priority (work_orders ?r) = [2, 1, 3]"
    by (simp add: sample_fields)
  note T = record_priority_is_minimum [of _ "fixedZone 0" "\<lambda>s. None" ?r u,
                                       THEN conjunct2, THEN conjunct2, THEN conjunct1]
  have "upd_priority u = Some 1"
    by (rule T [THEN mp, OF conjI [OF u p]])
  with u p show ?thesis
    by (intro exI [of _ u] conjI)
qed

section \<open>Properties of the match-photos step\<close>

lemma matchPage_skip:
  "\<not> qualifies page \<Longrightarrow> matchPage ev insertError items now st page = st"
  by (auto simp: matchPage_def qualifies_def truthy_def split: option.splits)

lemma matchPage_photos:
  "qualifies page
   \<Longrightarrow> photos (matchPage ev insertError items now st page)
         = photos st @ (if insertError (attemptedRow ev items page) = None
                        then [attemptedRow ev items page] else [])"
  by (auto simp: matchPage_def qualifies_def truthy_def attemptedRow_def pageCode_def Let_def
           split: option.splits)

lemma matchPage_matchedCount:
  "qualifies page
   \<Longrightarrow> matchedCount (matchPage ev insertError items now st page)
         = matchedCount st + (if insertError (attemptedRow ev items page) = None then 1 else 0)"
  by (auto simp: matchPage_def qualifies_def truthy_def attemptedRow_def pageCode_def Let_def
           split: option.splits)

lemma matchPage_unmatchedCount:
  "qualifies page
   \<Longrightarrow> unmatchedCount (matchPage ev insertError items now st page)
         = unmatchedCount st + (if find (codeMatches (pageCode page)) items = None then 1 else 0)"
  by (auto simp: matchPage_def qualifies_def truthy_def attemptedRow_def pageCode_def Let_def
           split: option.splits)

lemma matchPage_extras:
  "extras (logger (matchPage ev insertError items now st page)) = extras (logger st)"
  by (auto simp: matchPage_def Let_def log_warn_def log_error_def split: option.splits)

lemma matchPage_steps:
  "steps (logger (matchPage ev insertError items now st page)) = steps (logger st)"
  by (auto simp: matchPage_def Let_def log_warn_def log_error_def split: option.splits)

lemma matchLoop_Nil: "matchLoop ev insertError items now st [] = st"
  by (simp add: matchLoop_def)

lemma matchLoop_Cons:
  "matchLoop ev insertError items now st (p # ps)
     = matchLoop ev insertError items now (matchPage ev insertError items now st p) ps"
  by (simp add: matchLoop_def)

lemma matchLoop_photos:
  "photos (matchLoop ev insertError items now st pages)
     = photos st @ filter (\<lambda>r. insertError r = None)
                     (map (attemptedRow ev items) (filter qualifies pages))"
proof (induction pages arbitrary: st)
  case Nil
  show ?case by (simp add: matchLoop_Nil)
next
  case (Cons p ps)
  show ?case
  proof (cases "qualifies p")
    case True
    then show ?thesis
      by (simp add: matchLoop_Cons Cons.IH matchPage_photos)
  next
    case False
    then show ?thesis
      by (simp add: matchLoop_Cons Cons.IH matchPage_skip)
  qed
qed

lemma matchLoop_matchedCount:
  "matchedCount (matchLoop ev insertError items now st pages)
     = matchedCount st + length (filter (\<lambda>r. insertError r = None)
                                   (map (attemptedRow ev items) (filter qualifies pages)))"
proof (induction pages arbitrary: st)
  case Nil
  show ?case by (simp add: matchLoop_Nil)
next
  case (Cons p ps)
  show ?case
  proof (cases "qualifies p")
    case True
    then show ?thesis
      by (simp add: matchLoop_Cons Cons.IH matchPage_matchedCount)
  next
    case False
    then show ?thesis
      by (simp add: matchLoop_Cons Cons.IH matchPage_skip)
  qed
qed

lemma matchLoop_unmatchedCount:
  "unmatchedCount (matchLoop ev insertError items now st pages)
     = unmatchedCount st
       + length (filter (\<lambda>p. find (codeMatches (pageCode p)) items = None) (filter qualifies pages))"
proof (induction pages arbitrary: st)
  case Nil
  show ?case by (simp add: matchLoop_Nil)
next
  case (Cons p ps)
  show ?case
  proof (cases "qualifies p")
    case True
    then show ?thesis
      by (simp add: matchLoop_Cons Cons.IH matchPage_unmatchedCount)
  next
    case False
    then show ?thesis
      by (simp add: matchLoop_Cons Cons.IH matchPage_skip)
  qed
qed

lemma matchLoop_extras:
  "extras (logger (matchLoop ev insertError items now st pages)) = extras (logger st)"
  by (induction pages arbitrary: st) (simp_all add: matchLoop_Nil matchLoop_Cons matchPage_extras)

lemma attemptedRow_fields:
  "photo_type (attemptedRow ev items page) = ''INSPECTOR''"
  "photo_status (attemptedRow ev items page) = ''APPROVED''"
  "storage_path (attemptedRow ev items page) = pdfStoragePath ev"
  "photo_page_number (attemptedRow ev items page) = page_number page"
  "matched_violation_code (attemptedRow ev items page) = pageCode page"
  "violation_item_id (attemptedRow ev items page)
     = matchedItemId (find (codeMatches (pageCode page)) items)"
  "photo_org_id (attemptedRow ev items page) = orgId ev"
  "photo_violation_id (attemptedRow ev items page) = ev_violationId ev"
  by (simp_all add: attemptedRow_def photoRow_def)

lemma qualifies_code:
  "qualifies page = (is_evidence_photo page \<and> (\<exists>c. page_violation_code page = Some c \<and> c \<noteq> []))"
  by (auto simp: qualifies_def truthy_def split: option.splits)

lemma qualifies_pageCode:
  "qualifies page \<Longrightarrow> page_violation_code page = Some (pageCode page)"
  by (auto simp: qualifies_def truthy_def pageCode_def split: option.splits)

text \<open>The rows of the photos table after the step.\<close>

lemma matchPhotosStep_rows:
  "snd (snd (matchPhotosStep ev insertError items pages tStart tLoop tEnd lg db photoRows))
     = (case items of
          None \<Rightarrow> photoRows
        | Some its \<Rightarrow>
            if its = [] then photoRows
            else photoRows @ filter (\<lambda>r. insertError r = None)
                               (map (attemptedRow ev its) (filter qualifies pages)))"
  by (cases items) (simp_all add: matchPhotosStep_def Let_def case_prod_beta matchLoop_photos)

lemma extras_upsertStep [simp]: "extras (upsertStep lg n st msg now) = extras lg"
  by (simp add: upsertStep_def Let_def split: option.splits)

lemma stepStart_extras: "extras (fst (stepStart lg n m tLog ts db)) = extras lg"
  by (simp add: stepStart_def log_info_def)

lemma stepComplete_passed_other:
  "passed v
   \<Longrightarrow> persistedOther (snd (stepComplete lg n m (Some v) (Some ex) tv tLog ts (Some row)))
         = persistedOther (Some row) ++ (extras lg ++ ex)"
  by (simp add: stepComplete_def Let_def persistedOther_flush log_info_def log_warn_def)

lemma stepComplete_passed_extras:
  "passed v \<Longrightarrow> extras (fst (stepComplete lg n m (Some v) None tv tLog ts db)) = extras lg"
  by (simp add: stepComplete_def Let_def log_info_def log_warn_def)

lemma matchExtras_counters:
  "(m ++ matchExtras st) ''photos_matched'' = Some (JNum (int (matchedCount st)))"
  "(m ++ matchExtras st) ''photos_unmatched'' = Some (JNum (int (unmatchedCount st)))"
  by (simp_all add: matchExtras_def map_add_def)

lemma matchPhotosStep_skip:
  assumes "items = None \<or> items = Some []"
  shows "snd (snd (matchPhotosStep ev insertError items pages tStart tLoop tEnd lg db photoRows))
           = photoRows
         \<and> extras (fst (matchPhotosStep ev insertError items pages tStart tLoop tEnd lg db photoRows))
           = extras lg"
  using assms
  by (auto simp: matchPhotosStep_def case_prod_beta stepComplete_passed_extras stepStart_extras)

lemma matchPhotosStep_counters:
  assumes "its \<noteq> []"
  shows "persistedOther
           (fst (snd (matchPhotosStep ev insertError (Some its) pages tStart tLoop tEnd lg
                        (Some row) photoRows))) ''photos_matched''
           = Some (JNum (int (length (filter (\<lambda>r. insertError r = None)
                                        (map (attemptedRow ev its) (filter qualifies pages))))))
         \<and> persistedOther
           (fst (snd (matchPhotosStep ev insertError (Some its) pages tStart tLoop tEnd lg
                        (Some row) photoRows))) ''photos_unmatched''
           = Some (JNum (int (length (filter (\<lambda>p. find (codeMatches (pageCode p)) its = None)
                                        (filter qualifies pages)))))"
proof -
  obtain row1 where r1: "snd (stepStart lg ''match_photos''
                            ''Matching evidence photos to violation items by code''
                            tStart tStart (Some row)) = Some row1"
    using stepStart_db by blast
  show ?thesis
    using assms
    by (simp add: matchPhotosStep_def case_prod_beta Let_def r1 stepComplete_passed_other
          matchExtras_counters matchLoop_matchedCount matchLoop_unmatchedCount
          del: showNat.simps)
qed

lemma matchedItemId_None: "matchedItemId None = None"
  by (simp add: matchedItemId_def)

lemma matchedItemId_Some:
  "item_id item \<noteq> [] \<Longrightarrow> matchedItemId (Some item) = Some (item_id item)"
  by (simp add: matchedItemId_def)

subsection \<open>Photo rows and counters\<close>

text \<open>
  Claim C5, as amended. When the select returns at least one violation item, the step
  attempts exactly one insert for every page that is flagged as evidence and carries a
  non-empty violation code, in page order and whatever the match outcome; the row's
  \<open>violation_item_id\<close> is null when no item matches, and the rows written are the attempted
  rows that the store accepts. Pages without a code (null or empty) or not flagged as
  evidence produce no row. \<open>photos_unmatched\<close> records the number of qualifying pages
  that matched no item, and \<open>photos_matched\<close> records the number of rows written, matched
  or not. When the select returns no item, the step writes no row and records no counter.
\<close>

theorem photo_rows_and_counters:
  "(its \<noteq> []
      \<longrightarrow> snd (snd (matchPhotosStep ev insertError (Some its) pages tStart tLoop tEnd lg db photoRows))
            = photoRows @ filter (\<lambda>r. insertError r = None)
                            (map (attemptedRow ev its) (filter qualifies pages))
          \<and> ((\<forall>r. insertError r = None)
               \<longrightarrow> snd (snd (matchPhotosStep ev insertError (Some its) pages tStart tLoop tEnd lg db
                               photoRows))
                     = photoRows @ map (attemptedRow ev its) (filter qualifies pages))
          \<and> persistedOther
               (fst (snd (matchPhotosStep ev insertError (Some its) pages tStart tLoop tEnd lg
                            (Some row) photoRows))) ''photos_unmatched''
             = Some (JNum (int (length (filter (\<lambda>p. find (codeMatches (pageCode p)) its = None)
                                          (filter qualifies pages)))))
          \<and> persistedOther
               (fst (snd (matchPhotosStep ev insertError (Some its) pages tStart tLoop tEnd lg
                            (Some row) photoRows))) ''photos_matched''
             = Some (JNum (int (length (filter (\<lambda>r. insertError r = None)
                                          (map (attemptedRow ev its) (filter qualifies pages)))))))
   \<and> (items = None \<or> items = Some []
        \<longrightarrow> snd (snd (matchPhotosStep ev insertError items pages tStart tLoop tEnd lg db photoRows))
              = photoRows
            \<and> extras (fst (matchPhotosStep ev insertError items pages tStart tLoop tEnd lg db
                              photoRows))
              = extras lg)
   \<and> qualifies page
        = (is_evidence_photo page \<and> (\<exists>c. page_violation_code page = Some c \<and> c \<noteq> []))
   \<and> (find (codeMatches (pageCode page)) its = None
        \<longrightarrow> violation_item_id (attemptedRow ev its page) = None)
   \<and> (find (codeMatches (pageCode page)) its = Some item \<and> item_id item \<noteq> []
        \<longrightarrow> violation_item_id (attemptedRow ev its page) = Some (item_id item))
   \<and> (qualifies page \<longrightarrow> page_violation_code page = Some (matched_violation_code (attemptedRow ev its page)))
   \<and> photo_page_number (attemptedRow ev its page) = page_number page"
proof -
  have A: "its \<noteq> []
      \<longrightarrow> snd (snd (matchPhotosStep ev insertError (Some its) pages tStart tLoop tEnd lg db photoRows))
            = photoRows @ filter (\<lambda>r. insertError r = None)
                            (map (attemptedRow ev its) (filter qualifies pages))
          \<and> ((\<forall>r. insertError r = None)
               \<longrightarrow> snd (snd (matchPhotosStep ev insertError (Some its) pages tStart tLoop tEnd lg db
                               photoRows))
                     = photoRows @ map (attemptedRow ev its) (filter qualifies pages))
          \<and> persistedOther
               (fst (snd (matchPhotosStep ev insertError (Some its) pages tStart tLoop tEnd lg
                            (Some row) photoRows))) ''photos_unmatched''
             = Some (JNum (int (length (filter (\<lambda>p. find (codeMatches (pageCode p)) its = None)
                                          (filter qualifies pages)))))
          \<and> persistedOther
               (fst (snd (matchPhotosStep ev insertError (Some its) pages tStart tLoop tEnd lg
                            (Some row) photoRows))) ''photos_matched''
             = Some (JNum (int (length (filter (\<lambda>r. insertError r = None)
                                          (map (attemptedRow ev its) (filter qualifies pages))))))"
  proof (intro impI)
    assume ne: "its \<noteq> []"
    have rows: "snd (snd (matchPhotosStep ev insertError (Some its) pages tStart tLoop tEnd lg db photoRows))
            = photoRows @ filter (\<lambda>r. insertError r = None)
                            (map (attemptedRow ev its) (filter qualifies pages))"
      using ne by (simp add: matchPhotosStep_rows)
    have all: "(\<forall>r. insertError r = None)
               \<longrightarrow> snd (snd (matchPhotosStep ev insertError (Some its) pages tStart tLoop tEnd lg db
                               photoRows))
                     = photoRows @ map (attemptedRow ev its) (filter qualifies pages)"
      using rows by simp
    note c = matchPhotosStep_counters [OF ne, of ev insertError pages tStart tLoop tEnd lg row photoRows]
    show "snd (snd (matchPhotosStep ev insertError (Some its) pages tStart tLoop tEnd lg db photoRows))
            = photoRows @ filter (\<lambda>r. insertError r = None)
                            (map (attemptedRow ev its) (filter qualifies pages))
          \<and> ((\<forall>r. insertError r = None)
               \<longrightarrow> snd (snd (matchPhotosStep ev insertError (Some its) pages tStart tLoop tEnd lg db
                               photoRows))
                     = photoRows @ map (attemptedRow ev its) (filter qualifies pages))
          \<and> persistedOther
               (fst (snd (matchPhotosStep ev insertError (Some its) pages tStart tLoop tEnd lg
                            (Some row) photoRows))) ''photos_unmatched''
             = Some (JNum (int (length (filter (\<lambda>p. find (codeMatches (pageCode p)) its = None)
                                          (filter qualifies pages)))))
          \<and> persistedOther
               (fst (snd (matchPhotosStep ev insertError (Some its) pages tStart tLoop tEnd lg
                            (Some row) photoRows))) ''photos_matched''
             = Some (JNum (int (length (filter (\<lambda>r. insertError r = None)
                                          (map (attemptedRow ev its) (filter qualifies pages))))))"
      by (intro conjI rows all conjunct2 [OF c] conjunct1 [OF c])
  qed
  have B: "items = None \<or> items = Some []
        \<longrightarrow> snd (snd (matchPhotosStep ev insertError items pages tStart tLoop tEnd lg db photoRows))
              = photoRows
            \<and> extras (fst (matchPhotosStep ev insertError items pages tStart tLoop tEnd lg db
                              photoRows))
              = extras lg"
    using matchPhotosStep_skip by blast
  have C: "qualifies page
        = (is_evidence_photo page \<and> (\<exists>c. page_violation_code page = Some c \<and> c \<noteq> []))"
    by (rule qualifies_code)
  have D: "find (codeMatches (pageCode page)) its = None
        \<longrightarrow> violation_item_id (attemptedRow ev its page) = None"
    by (simp add: attemptedRow_fields matchedItemId_None)
  have E: "find (codeMatches (pageCode page)) its = Some item \<and> item_id item \<noteq> []
        \<longrightarrow> violation_item_id (attemptedRow ev its page) = Some (item_id item)"
    by (simp add: attemptedRow_fields matchedItemId_Some)
  have F: "qualifies page \<longrightarrow> page_violation_code page = Some (matched_violation_code (attemptedRow ev its page))"
    by (simp add: attemptedRow_fields qualifies_pageCode)
  have G: "photo_page_number (attemptedRow ev its page) = page_number page"
    by (simp add: attemptedRow_fields)
  show ?thesis
    by (intro conjI A B C D E F G)
qed

subsection \<open>Inspector photo rows\<close>

text \<open>
  Claim C10. Every row that the step adds to the photos table has photo type INSPECTOR
  and status APPROVED, the storage path of the source PDF, and the page number and the
  violation code of a page of the analysis that is flagged as evidence.
\<close>

theorem inspector_photo_rows:
  "\<exists>new. snd (snd (matchPhotosStep ev insertError items pages tStart tLoop tEnd lg db photoRows))
            = photoRows @ new
         \<and> (\<forall>r\<in>set new.
               photo_type r = ''INSPECTOR'' \<and> photo_status r = ''APPROVED''
               \<and> storage_path r = pdfStoragePath ev
               \<and> (\<exists>p\<in>set pages. is_evidence_photo p
                     \<and> page_violation_code p = Some (matched_violation_code r)
                     \<and> photo_page_number r = page_number p))"
proof -
  define its where "its = (case items of None \<Rightarrow> [] | Some l \<Rightarrow> l)"
  define new where "new = (if its = [] then []
                           else filter (\<lambda>r. insertError r = None)
                                  (map (attemptedRow ev its) (filter qualifies pages)))"
  have rows: "snd (snd (matchPhotosStep ev insertError items pages tStart tLoop tEnd lg db photoRows))
            = photoRows @ new"
    by (cases items) (simp_all add: matchPhotosStep_rows new_def its_def)
  have props: "\<forall>r\<in>set new.
               photo_type r = ''INSPECTOR'' \<and> photo_status r = ''APPROVED''
               \<and> storage_path r = pdfStoragePath ev
               \<and> (\<exists>p\<in>set pages. is_evidence_photo p
                     \<and> page_violation_code p = Some (matched_violation_code r)
                     \<and> photo_page_number r = page_number p)"
  proof
    fix r assume "r \<in> set new"
    then obtain p where p: "p \<in> set pages" "qualifies p" "r = attemptedRow ev its p"
      by (auto simp: new_def split: if_splits)
    from p(2) have "is_evidence_photo p" by (simp add: qualifies_def)
    with p qualifies_pageCode [OF p(2)]
    show "photo_type r = ''INSPECTOR'' \<and> photo_status r = ''APPROVED''
               \<and> storage_path r = pdfStoragePath ev
               \<and> (\<exists>p\<in>set pages. is_evidence_photo p
                     \<and> page_violation_code p = Some (matched_violation_code r)
                     \<and> photo_page_number r = page_number p)"
      by (auto simp: attemptedRow_fields)
  qed
  from rows props show ?thesis by blast
qed

lemma normalize_A: "normalizeCode ''A'' = ''a''"
  by code_simp

lemma normalize_B: "normalizeCode ''B'' = ''b''"
  by code_simp

lemma samplePage_qualifies:
  "qualifies (samplePage n (Some (c # cs)) True)"
  "\<not> qualifies (samplePage n None b)"
  "\<not> qualifies (samplePage n code False)"
  "pageCode (samplePage n (Some code') b) = code'"
  "page_number (samplePage n code b) = n"
  by (simp_all add: qualifies_def samplePage_def truthy_def pageCode_def)

lemma codeMatches_A_B:
  "\<not> codeMatches ''A'' \<lparr>item_id = ''i1'', item_violation_code = Some ''B''\<rparr>"
  by (simp add: codeMatches_def truthy_def normalize_A normalize_B)

lemma codeMatches_A_A:
  "codeMatches ''A'' \<lparr>item_id = ''i1'', item_violation_code = Some ''A''\<rparr>"
  by (simp add: codeMatches_def truthy_def)

lemma find_A_in_B:
  "find (codeMatches ''A'') [\<lparr>item_id = ''i1'', item_violation_code = Some ''B''\<rparr>] = None"
  by (simp add: codeMatches_def truthy_def normalize_A normalize_B)

lemma find_A_in_A:
  "find (codeMatches ''A'') [\<lparr>item_id = ''i1'', item_violation_code = Some ''A''\<rparr>]
     = Some \<lparr>item_id = ''i1'', item_violation_code = Some ''A''\<rparr>"
  by (simp add: codeMatches_def truthy_def)

theorem photo_rows_and_counters_witness:
  "[\<lparr>item_id = ''i1'', item_violation_code = Some ''A''\<rparr>] \<noteq> []
   \<and> map photo_page_number
       (snd (snd (matchPhotosStep sampleEvent (\<lambda>r. None)
                    (Some [\<lparr>item_id = ''i1'', item_violation_code = Some ''A''\<rparr>])
                    [samplePage 3 (Some ''A'') True, samplePage 4 None True,
                     samplePage 5 (Some ''A'') False]
                    ''t0'' ''t1'' ''t2'' (newParseLogger ''v1'') (Some sampleRow) [])))
     = [3]
   \<and> map violation_item_id
       (snd (snd (matchPhotosStep sampleEvent (\<lambda>r. None)
                    (Some [\<lparr>item_id = ''i1'', item_violation_code = Some ''A''\<rparr>])
                    [samplePage 3 (Some ''A'') True, samplePage 4 None True,
                     samplePage 5 (Some ''A'') False]
                    ''t0'' ''t1'' ''t2'' (newParseLogger ''v1'') (Some sampleRow) [])))
     = [Some ''i1'']"
proof -
  have ne: "[\<lparr>item_id = ''i1'', item_violation_code = Some ''A''\<rparr>] \<noteq> []"
    by simp
  note T = photo_rows_and_counters [THEN conjunct1, THEN mp, OF ne, THEN conjunct1]
  have rows: "snd (snd (matchPhotosStep sampleEvent (\<lambda>r. None)
                    (Some [\<lparr>item_id = ''i1'', item_violation_code = Some ''A''\<rparr>])
                    [samplePage 3 (Some ''A'') True, samplePage 4 None True,
                     samplePage 5 (Some ''A'') False]
                    ''t0'' ''t1'' ''t2'' (newParseLogger ''v1'') (Some sampleRow) []))
        = [attemptedRow sampleEvent [\<lparr>item_id = ''i1'', item_violation_code = Some ''A''\<rparr>]
             (samplePage 3 (Some ''A'') True)]"
    by (simp add: T samplePage_qualifies)
  have 1: "map photo_page_number
       (snd (snd (matchPhotosStep sampleEvent (\<lambda>r. None)
                    (Some [\<lparr>item_id = ''i1'', item_violation_code = Some ''A''\<rparr>])
                    [samplePage 3 (Some ''A'') True, samplePage 4 None True,
                     samplePage 5 (Some ''A'') False]
                    ''t0'' ''t1'' ''t2'' (newParseLogger ''v1'') (Some sampleRow) [])))
     = [3]"
    by (simp add: rows attemptedRow_fields samplePage_qualifies)
  have 2: "map violation_item_id
       (snd (snd (matchPhotosStep sampleEvent (\<lambda>r. None)
                    (Some [\<lparr>item_id = ''i1'', item_violation_code = Some ''A''\<rparr>])
                    [samplePage 3 (Some ''A'') True, samplePage 4 None True,
                     samplePage 5 (Some ''A'') False]
                    ''t0'' ''t1'' ''t2'' (newParseLogger ''v1'') (Some sampleRow) [])))
     = [Some ''i1'']"
    by (simp add: rows attemptedRow_fields samplePage_qualifies find_A_in_A codeMatches_A_A matchedItemId_def)
  show ?thesis
    by (intro conjI ne 1 2)
qed

text \<open>
  Two runs of the step on one evidence page with a code. With no item in the store no row
  is written. With one item whose code differs the row is written with a null item id,
  and both counters are 1: \<open>photos_matched\<close> counts the page although it matched no item.
\<close>

theorem photos_matched_counts_inserted_rows:
  "snd (snd (matchPhotosStep sampleEvent (\<lambda>r. None) (Some [])
               [samplePage 3 (Some ''A'') True]
               ''t0'' ''t1'' ''t2'' (newParseLogger ''v1'') (Some sampleRow) []))
     = []
   \<and> map violation_item_id
       (snd (snd (matchPhotosStep sampleEvent (\<lambda>r. None)
                    (Some [\<lparr>item_id = ''i1'', item_violation_code = Some ''B''\<rparr>])
                    [samplePage 3 (Some ''A'') True]
                    ''t0'' ''t1'' ''t2'' (newParseLogger ''v1'') (Some sampleRow) [])))
     = [None]
   \<and> persistedOther
       (fst (snd (matchPhotosStep sampleEvent (\<lambda>r. None)
                    (Some [\<lparr>item_id = ''i1'', item_violation_code = Some ''B''\<rparr>])
                    [samplePage 3 (Some ''A'') True]
                    ''t0'' ''t1'' ''t2'' (newParseLogger ''v1'') (Some sampleRow) [])))
       ''photos_matched''
     = Some (JNum 1)
   \<and> persistedOther
       (fst (snd (matchPhotosStep sampleEvent (\<lambda>r. None)
                    (Some [\<lparr>item_id = ''i1'', item_violation_code = Some ''B''\<rparr>])
                    [samplePage 3 (Some ''A'') True]
                    ''t0'' ''t1'' ''t2'' (newParseLogger ''v1'') (Some sampleRow) [])))
       ''photos_unmatched''
     = Some (JNum 1)"
proof -
  have ne: "[\<lparr>item_id = ''i1'', item_violation_code = Some ''B''\<rparr>] \<noteq> []"
    by simp
  have 1: "snd (snd (matchPhotosStep sampleEvent (\<lambda>r. None) (Some [])
               [samplePage 3 (Some ''A'') True]
               ''t0'' ''t1'' ''t2'' (newParseLogger ''v1'') (Some sampleRow) []))
     = []"
    by (simp add: matchPhotosStep_rows)
  have 2: "map violation_item_id
       (snd (snd (matchPhotosStep sampleEvent (\<lambda>r. None)
                    (Some [\<lparr>item_id = ''i1'', item_violation_code = Some ''B''\<rparr>])
                    [samplePage 3 (Some ''A'') True]
                    ''t0'' ''t1'' ''t2'' (newParseLogger ''v1'') (Some sampleRow) [])))
     = [None]"
    by (simp add: matchPhotosStep_rows attemptedRow_fields samplePage_qualifies find_A_in_B
          codeMatches_A_B matchedItemId_def)
  note c = matchPhotosStep_counters [OF ne, of sampleEvent "\<lambda>r. None"
             "[samplePage 3 (Some ''A'') True]" "''t0''" "''t1''" "''t2''"
             "newParseLogger ''v1''" sampleRow "[]"]
  have 3: "persistedOther
       (fst (snd (matchPhotosStep sampleEvent (\<lambda>r. None)
                    (Some [\<lparr>item_id = ''i1'', item_violation_code = Some ''B''\<rparr>])
                    [samplePage 3 (Some ''A'') True]
                    ''t0'' ''t1'' ''t2'' (newParseLogger ''v1'') (Some sampleRow) [])))
       ''photos_matched''
     = Some (JNum 1)"
    using conjunct1 [OF c] by (simp add: samplePage_qualifies)
  have 4: "persistedOther
       (fst (snd (matchPhotosStep sampleEvent (\<lambda>r. None)
                    (Some [\<lparr>item_id = ''i1'', item_violation_code = Some ''B''\<rparr>])
                    [samplePage 3 (Some ''A'') True]
                    ''t0'' ''t1'' ''t2'' (newParseLogger ''v1'') (Some sampleRow) [])))
       ''photos_unmatched''
     = Some (JNum 1)"
    using conjunct2 [OF c] by (simp add: samplePage_qualifies find_A_in_B codeMatches_A_B)
  show ?thesis
    by (intro conjI 1 2 3 4)
qed

theorem inspector_photo_rows_witness:
  "\<exists>new. snd (snd (matchPhotosStep sampleEvent (\<lambda>r. None)
                     (Some [\<lparr>item_id = ''i1'', item_violation_code = Some ''B''\<rparr>])
                     [samplePage 3 (Some ''A'') True]
                     ''t0'' ''t1'' ''t2'' (newParseLogger ''v1'') (Some sampleRow) []))
            = [] @ new
         \<and> new \<noteq> []
         \<and> photo_type (hd new) = ''INSPECTOR'' \<and> photo_status (hd new) = ''APPROVED''
         \<and> storage_path (hd new) = pdfStoragePath sampleEvent"
proof -
  let ?rows = "snd (snd (matchPhotosStep sampleEvent (\<lambda>r. None)
                     (Some [\<lparr>item_id = ''i1'', item_violation_code = Some ''B''\<rparr>])
                     [samplePage 3 (Some ''A'') True]
                     ''t0'' ''t1'' ''t2'' (newParseLogger ''v1'') (Some sampleRow) []))"
  obtain new where n1: "?rows = [] @ new"
    and n2: "\<forall>r\<in>set new.
               photo_type r = ''INSPECTOR'' \<and> photo_status r = ''APPROVED''
               \<and> storage_path r = pdfStoragePath sampleEvent
               \<and> (\<exists>p\<in>set [samplePage 3 (Some ''A'') True]. is_evidence_photo p
                     \<and> page_violation_code p = Some (matched_violation_code r)
                     \<and> photo_page_number r = page_number p)"
    using inspector_photo_rows [of sampleEvent "\<lambda>r. None"
            "Some [\<lparr>item_id = ''i1'', item_violation_code = Some ''B''\<rparr>]"
            "[samplePage 3 (Some ''A'') True]" "''t0''" "''t1''" "''t2''"
            "newParseLogger ''v1''" "Some sampleRow" "[]"]
    by (elim exE conjE)
  have "length ?rows = 1"
    by (simp add: matchPhotosStep_rows samplePage_qualifies)
  with n1 have ne: "new \<noteq> []" by auto
  then have m: "hd new \<in> set new" by simp
  have p: "photo_type (hd new) = ''INSPECTOR'' \<and> photo_status (hd new) = ''APPROVED''
               \<and> storage_path (hd new) = pdfStoragePath sampleEvent"
    using bspec [OF n2 m] by simp
  show ?thesis
    by (rule exI [of _ new]) (intro conjI n1 ne p)
qed

end
